theory Spec2Isabelle
  imports Main
begin

section \<open>The generational LRU cache of kysely-node-sqlite (lru.ts)\<close>

text \<open>
  The cache engine \<open>LRUBase\<close> keeps two JavaScript \<open>Map\<close>s (\<open>#cache\<close>, the active
  generation, and \<open>#oldCache\<close>, the previous one), a counter \<open>#size\<close>, \<open>#maxSize\<close>,
  \<open>#maxAge\<close> and an optional callback \<open>#onEviction\<close>. The facade \<open>QuickLRU\<close> wraps one
  engine and one mirror \<open>Map\<close>.

  Modelling decisions:
  \<^item> a JavaScript \<open>Map\<close> is an association list in insertion order; \<open>Map.set\<close> overwrites
    an existing key in place and appends a new one, \<open>Map.delete\<close> removes the key;
  \<^item> timestamps and durations are integers (milliseconds); a duration that may be
    \<open>Number.POSITIVE_INFINITY\<close> is a \<open>jsnum\<close>; \<open>Date.now()\<close> is the parameter \<open>now\<close>
    of every operation that reads the clock (one reading per synchronous call);
  \<^item> the callback \<open>onEviction\<close> is a flag (configured or not); every operation returns the
    list of callback invocations it made, in order, each with the key, the value and the
    engine state at the moment of the invocation;
  \<^item> the \<open>TypeError\<close> of the constructor and of \<open>resize\<close> is the left summand of a sum;
  \<^item> a generator is run to completion and returns the list it yields.
\<close>

subsection \<open>JavaScript Map\<close>

type_synonym ('k, 'a) jsmap = "('k \<times> 'a) list"

definition Map_has :: "('k, 'a) jsmap \<Rightarrow> 'k \<Rightarrow> bool" where
  "Map_has m k = (map_of m k \<noteq> None)"

definition Map_get :: "('k, 'a) jsmap \<Rightarrow> 'k \<Rightarrow> 'a option" where
  "Map_get m k = map_of m k"

fun Map_set :: "('k, 'a) jsmap \<Rightarrow> 'k \<Rightarrow> 'a \<Rightarrow> ('k, 'a) jsmap" where
  "Map_set [] k v = [(k, v)]"
| "Map_set (p # ps) k v = (if fst p = k then (k, v) # ps else p # Map_set ps k v)"

definition Map_delete :: "('k, 'a) jsmap \<Rightarrow> 'k \<Rightarrow> ('k, 'a) jsmap" where
  "Map_delete m k = filter (\<lambda>p. fst p \<noteq> k) m"

text \<open>\<open>new Map(iterable)\<close> calls \<open>set\<close> for every entry of the iterable, in order.\<close>

definition Map_new :: "('k \<times> 'a) list \<Rightarrow> ('k, 'a) jsmap" where
  "Map_new items = foldl (\<lambda>m p. Map_set m (fst p) (snd p)) [] items"

subsection \<open>Data model\<close>

datatype jsnum = Num int | POSITIVE_INFINITY

datatype error = TypeError

record 'v CacheItem =
  item_value :: 'v
  expiry :: "int option"

record Options =
  opt_maxAge :: "jsnum option"
  opt_maxSize :: int
  opt_onEviction :: bool

record ('k, 'v) LRUBase =
  size_priv :: int
  cache :: "('k, 'v CacheItem) jsmap"
  oldCache :: "('k, 'v CacheItem) jsmap"
  maxSize :: int
  maxAge :: jsnum
  onEviction :: bool

text \<open>One invocation \<open>onEviction(key, value)\<close>, with the engine state it happened in.\<close>

type_synonym ('k, 'v) call = "'k \<times> 'v \<times> ('k, 'v) LRUBase"

definition notified :: "('k, 'v) call list \<Rightarrow> ('k \<times> 'v) list" where
  "notified cs = map (\<lambda>c. (fst c, fst (snd c))) cs"

subsection \<open>The engine\<close>

definition LRUBase_new :: "Options \<Rightarrow> error + ('k, 'v) LRUBase" where
  "LRUBase_new options =
     (if \<not> (opt_maxSize options \<noteq> 0 \<and> opt_maxSize options > 0) then Inl TypeError
      else if opt_maxAge options = Some (Num 0) then Inl TypeError
      else Inr \<lparr> size_priv = 0, cache = [], oldCache = [],
                 maxSize = opt_maxSize options,
                 maxAge = (case opt_maxAge options of
                             None \<Rightarrow> POSITIVE_INFINITY
                           | Some (Num a) \<Rightarrow> (if a = 0 then POSITIVE_INFINITY else Num a)
                           | Some POSITIVE_INFINITY \<Rightarrow> POSITIVE_INFINITY),
                 onEviction = opt_onEviction options \<rparr>)"

definition LRUBase_emitEvictions ::
  "('k, 'v) LRUBase \<Rightarrow> ('k, 'v CacheItem) jsmap \<Rightarrow> ('k, 'v) call list" where
  "LRUBase_emitEvictions s m =
     (if \<not> onEviction s then []
      else map (\<lambda>p. (fst p, item_value (snd p), s)) m)"

definition LRUBase_delete :: "'k \<Rightarrow> ('k, 'v) LRUBase \<Rightarrow> bool \<times> ('k, 'v) LRUBase" where
  "LRUBase_delete key s =
     (let deleted = Map_has (cache s) key;
          s1 = s\<lparr>cache := Map_delete (cache s) key\<rparr>;
          s2 = (if deleted then s1\<lparr>size_priv := size_priv s1 - 1\<rparr> else s1);
          oldDeleted = Map_has (oldCache s2) key;
          s3 = s2\<lparr>oldCache := Map_delete (oldCache s2) key\<rparr>
      in (oldDeleted \<or> deleted, s3))"

definition is_expired :: "int \<Rightarrow> 'v CacheItem \<Rightarrow> bool" where
  \<comment> \<open>\<open>typeof item.expiry === "number" && item.expiry <= Date.now()\<close>\<close>
  "is_expired now item = (case expiry item of None \<Rightarrow> False | Some e \<Rightarrow> e \<le> now)"

definition LRUBase_deleteIfExpired ::
  "int \<Rightarrow> 'k \<Rightarrow> 'v CacheItem \<Rightarrow> ('k, 'v) LRUBase
     \<Rightarrow> bool \<times> ('k, 'v) LRUBase \<times> ('k, 'v) call list" where
  "LRUBase_deleteIfExpired now key item s =
     (if is_expired now item then
        (let calls = (if onEviction s then [(key, item_value item, s)] else []);
             r = LRUBase_delete key s
         in (fst r, snd r, calls))
      else (False, s, []))"

definition LRUBase_getOrDeleteIfExpired ::
  "int \<Rightarrow> 'k \<Rightarrow> 'v CacheItem \<Rightarrow> ('k, 'v) LRUBase
     \<Rightarrow> 'v option \<times> ('k, 'v) LRUBase \<times> ('k, 'v) call list" where
  "LRUBase_getOrDeleteIfExpired now key item s =
     (case LRUBase_deleteIfExpired now key item s of
        (deleted, s1, calls) \<Rightarrow>
          if deleted = False then (Some (item_value item), s1, calls)
          else (None, s1, calls))"

definition truthy_expiry :: "'v CacheItem \<Rightarrow> bool" where
  \<comment> \<open>the condition \<open>item.expiry ?\<close>: \<open>undefined\<close> and \<open>0\<close> are falsy\<close>
  "truthy_expiry item = (case expiry item of None \<Rightarrow> False | Some e \<Rightarrow> e \<noteq> 0)"

definition LRUBase_getItemValue ::
  "int \<Rightarrow> 'k \<Rightarrow> 'v CacheItem \<Rightarrow> ('k, 'v) LRUBase
     \<Rightarrow> 'v option \<times> ('k, 'v) LRUBase \<times> ('k, 'v) call list" where
  "LRUBase_getItemValue now key item s =
     (if truthy_expiry item then LRUBase_getOrDeleteIfExpired now key item s
      else (Some (item_value item), s, []))"

definition LRUBase_peek_priv ::
  "int \<Rightarrow> 'k \<Rightarrow> ('k, 'v CacheItem) jsmap \<Rightarrow> ('k, 'v) LRUBase
     \<Rightarrow> 'v option \<times> ('k, 'v) LRUBase \<times> ('k, 'v) call list" where
  "LRUBase_peek_priv now key m s =
     (case Map_get m key of
        None \<Rightarrow> (None, s, [])
      | Some item \<Rightarrow> LRUBase_getItemValue now key item s)"

definition LRUBase_set_priv ::
  "'k \<Rightarrow> 'v CacheItem \<Rightarrow> ('k, 'v) LRUBase \<Rightarrow> ('k, 'v) LRUBase \<times> ('k, 'v) call list" where
  "LRUBase_set_priv key item s =
     (let s1 = s\<lparr>cache := Map_set (cache s) key item\<rparr>;
          s2 = s1\<lparr>size_priv := size_priv s1 + 1\<rparr>
      in if size_priv s2 \<ge> maxSize s2 then
           (let s3 = s2\<lparr>size_priv := 0\<rparr>;
                calls = LRUBase_emitEvictions s3 (oldCache s3);
                s4 = s3\<lparr>oldCache := cache s3\<rparr>;
                s5 = s4\<lparr>cache := []\<rparr>
            in (s5, calls))
         else (s2, []))"

definition LRUBase_moveToRecent ::
  "'k \<Rightarrow> 'v CacheItem \<Rightarrow> ('k, 'v) LRUBase \<Rightarrow> ('k, 'v) LRUBase \<times> ('k, 'v) call list" where
  "LRUBase_moveToRecent key item s =
     LRUBase_set_priv key item (s\<lparr>oldCache := Map_delete (oldCache s) key\<rparr>)"

text \<open>
  The two loops of \<open>#entriesAscending\<close>. Each walks a \<open>Map\<close> while \<open>#deleteIfExpired\<close> may
  delete the entry being visited; the keys of a \<open>Map\<close> are distinct, so the entries still
  to come are never deleted, and the walk is over the entries the \<open>Map\<close> had at the start
  of the loop.
\<close>

fun ascending_old ::
  "int \<Rightarrow> ('k \<times> 'v CacheItem) list \<Rightarrow> ('k, 'v) LRUBase
     \<Rightarrow> ('k \<times> 'v CacheItem) list \<times> ('k, 'v) LRUBase \<times> ('k, 'v) call list" where
  "ascending_old now [] s = ([], s, [])"
| "ascending_old now (p # rest) s =
     (if \<not> Map_has (cache s) (fst p) then
        (case LRUBase_deleteIfExpired now (fst p) (snd p) s of
           (deleted, s1, c1) \<Rightarrow>
             (case ascending_old now rest s1 of
                (ys, s2, c2) \<Rightarrow>
                  ((if deleted = False then [p] else []) @ ys, s2, c1 @ c2)))
      else ascending_old now rest s)"

fun ascending_cache ::
  "int \<Rightarrow> ('k \<times> 'v CacheItem) list \<Rightarrow> ('k, 'v) LRUBase
     \<Rightarrow> ('k \<times> 'v CacheItem) list \<times> ('k, 'v) LRUBase \<times> ('k, 'v) call list" where
  "ascending_cache now [] s = ([], s, [])"
| "ascending_cache now (p # rest) s =
     (case LRUBase_deleteIfExpired now (fst p) (snd p) s of
        (deleted, s1, c1) \<Rightarrow>
          (case ascending_cache now rest s1 of
             (ys, s2, c2) \<Rightarrow>
               ((if deleted = False then [p] else []) @ ys, s2, c1 @ c2)))"

definition LRUBase_entriesAscending_priv ::
  "int \<Rightarrow> ('k, 'v) LRUBase
     \<Rightarrow> ('k \<times> 'v CacheItem) list \<times> ('k, 'v) LRUBase \<times> ('k, 'v) call list" where
  "LRUBase_entriesAscending_priv now s =
     (case ascending_old now (oldCache s) s of
        (ys1, s1, c1) \<Rightarrow>
          (case ascending_cache now (cache s1) s1 of
             (ys2, s2, c2) \<Rightarrow> (ys1 @ ys2, s2, c1 @ c2)))"

definition LRUBase_get ::
  "int \<Rightarrow> 'k \<Rightarrow> ('k, 'v) LRUBase \<Rightarrow> 'v option \<times> ('k, 'v) LRUBase \<times> ('k, 'v) call list" where
  "LRUBase_get now key s =
     (if Map_has (cache s) key then
        (case Map_get (cache s) key of
           None \<Rightarrow> (None, s, [])
         | Some item \<Rightarrow> LRUBase_getItemValue now key item s)
      else if Map_has (oldCache s) key then
        (case Map_get (oldCache s) key of
           None \<Rightarrow> (None, s, [])
         | Some item \<Rightarrow>
             (case LRUBase_deleteIfExpired now key item s of
                (deleted, s1, c1) \<Rightarrow>
                  if deleted = False then
                    (case LRUBase_moveToRecent key item s1 of
                       (s2, c2) \<Rightarrow> (Some (item_value item), s2, c1 @ c2))
                  else (None, s1, c1)))
      else (None, s, []))"

definition LRUBase_set ::
  "int \<Rightarrow> 'k \<Rightarrow> 'v \<Rightarrow> jsnum option \<Rightarrow> ('k, 'v) LRUBase
     \<Rightarrow> ('k, 'v) LRUBase \<times> ('k, 'v) call list" where
  "LRUBase_set now key v options_maxAge s =
     (let maxAge' = (case options_maxAge of None \<Rightarrow> maxAge s | Some a \<Rightarrow> a);
          expiry' = (case maxAge' of Num a \<Rightarrow> Some (now + a) | POSITIVE_INFINITY \<Rightarrow> None)
      in if Map_has (cache s) key then
           (s\<lparr>cache := Map_set (cache s) key \<lparr>item_value = v, expiry = expiry'\<rparr>\<rparr>, [])
         else LRUBase_set_priv key \<lparr>item_value = v, expiry = expiry'\<rparr> s)"

definition LRUBase_has ::
  "int \<Rightarrow> 'k \<Rightarrow> ('k, 'v) LRUBase \<Rightarrow> bool \<times> ('k, 'v) LRUBase \<times> ('k, 'v) call list" where
  "LRUBase_has now key s =
     (if Map_has (cache s) key then
        (case Map_get (cache s) key of
           None \<Rightarrow> (False, s, [])
         | Some item \<Rightarrow>
             (case LRUBase_deleteIfExpired now key item s of
                (deleted, s1, c1) \<Rightarrow> (\<not> deleted, s1, c1)))
      else if Map_has (oldCache s) key then
        (case Map_get (oldCache s) key of
           None \<Rightarrow> (False, s, [])
         | Some item \<Rightarrow>
             (case LRUBase_deleteIfExpired now key item s of
                (deleted, s1, c1) \<Rightarrow> (\<not> deleted, s1, c1)))
      else (False, s, []))"

definition LRUBase_peek ::
  "int \<Rightarrow> 'k \<Rightarrow> ('k, 'v) LRUBase \<Rightarrow> 'v option \<times> ('k, 'v) LRUBase \<times> ('k, 'v) call list" where
  "LRUBase_peek now key s =
     (if Map_has (cache s) key then LRUBase_peek_priv now key (cache s) s
      else if Map_has (oldCache s) key then LRUBase_peek_priv now key (oldCache s) s
      else (None, s, []))"

definition LRUBase_clear :: "('k, 'v) LRUBase \<Rightarrow> ('k, 'v) LRUBase" where
  "LRUBase_clear s = s\<lparr>cache := [], oldCache := [], size_priv := 0\<rparr>"

definition LRUBase_resize ::
  "int \<Rightarrow> int \<Rightarrow> ('k, 'v) LRUBase \<Rightarrow> error + (('k, 'v) LRUBase \<times> ('k, 'v) call list)" where
  "LRUBase_resize now maxSize' s =
     (if \<not> (maxSize' \<noteq> 0 \<and> maxSize' > 0) then Inl TypeError
      else
        (case LRUBase_entriesAscending_priv now s of
           (items, s1, c1) \<Rightarrow>
             (let removeCount = int (length items) - maxSize' in
              if removeCount < 0 then
                Inr (s1\<lparr>cache := Map_new items, oldCache := [],
                         size_priv := int (length items), maxSize := maxSize'\<rparr>, c1)
              else
                (let c2 = (if removeCount > 0
                           then LRUBase_emitEvictions s1 (Map_new (take (nat removeCount) items))
                           else [])
                 in Inr (s1\<lparr>oldCache := Map_new (drop (nat removeCount) items), cache := [],
                             size_priv := 0, maxSize := maxSize'\<rparr>, c1 @ c2)))))"

text \<open>
  \<open>entriesDescending\<close> copies each \<open>Map\<close> into an array first (\<open>[...this.#cache]\<close>, and
  \<open>[...this.#oldCache]\<close> after the first loop has run) and walks the copy from its end.
\<close>

fun descending_cache ::
  "int \<Rightarrow> ('k \<times> 'v CacheItem) list \<Rightarrow> ('k, 'v) LRUBase
     \<Rightarrow> ('k \<times> 'v) list \<times> ('k, 'v) LRUBase \<times> ('k, 'v) call list" where
  "descending_cache now [] s = ([], s, [])"
| "descending_cache now (p # rest) s =
     (case LRUBase_deleteIfExpired now (fst p) (snd p) s of
        (deleted, s1, c1) \<Rightarrow>
          (case descending_cache now rest s1 of
             (ys, s2, c2) \<Rightarrow>
               ((if deleted = False then [(fst p, item_value (snd p))] else []) @ ys,
                s2, c1 @ c2)))"

fun descending_old ::
  "int \<Rightarrow> ('k \<times> 'v CacheItem) list \<Rightarrow> ('k, 'v) LRUBase
     \<Rightarrow> ('k \<times> 'v) list \<times> ('k, 'v) LRUBase \<times> ('k, 'v) call list" where
  "descending_old now [] s = ([], s, [])"
| "descending_old now (p # rest) s =
     (if \<not> Map_has (cache s) (fst p) then
        (case LRUBase_deleteIfExpired now (fst p) (snd p) s of
           (deleted, s1, c1) \<Rightarrow>
             (case descending_old now rest s1 of
                (ys, s2, c2) \<Rightarrow>
                  ((if deleted = False then [(fst p, item_value (snd p))] else []) @ ys,
                   s2, c1 @ c2)))
      else descending_old now rest s)"

definition LRUBase_entriesDescending ::
  "int \<Rightarrow> ('k, 'v) LRUBase \<Rightarrow> ('k \<times> 'v) list \<times> ('k, 'v) LRUBase \<times> ('k, 'v) call list" where
  "LRUBase_entriesDescending now s =
     (case descending_cache now (rev (cache s)) s of
        (ys1, s1, c1) \<Rightarrow>
          (case descending_old now (rev (oldCache s1)) s1 of
             (ys2, s2, c2) \<Rightarrow> (ys1 @ ys2, s2, c1 @ c2)))"

definition LRUBase_entriesAscending ::
  "int \<Rightarrow> ('k, 'v) LRUBase \<Rightarrow> ('k \<times> 'v) list \<times> ('k, 'v) LRUBase \<times> ('k, 'v) call list" where
  "LRUBase_entriesAscending now s =
     (case LRUBase_entriesAscending_priv now s of
        (items, s1, c1) \<Rightarrow> (map (\<lambda>p. (fst p, item_value (snd p))) items, s1, c1))"

definition LRUBase_size :: "('k, 'v) LRUBase \<Rightarrow> int" where
  "LRUBase_size s =
     (if size_priv s = 0 then int (length (oldCache s))
      else min (size_priv s
                + int (length (filter (\<lambda>key. \<not> Map_has (cache s) key) (map fst (oldCache s)))))
               (maxSize s))"

definition LRUBase_maxSize :: "('k, 'v) LRUBase \<Rightarrow> int" where
  "LRUBase_maxSize s = maxSize s"

subsection \<open>The facade\<close>

record ('k, 'v) QuickLRU =
  base :: "('k, 'v) LRUBase"
  map_priv :: "('k, 'v) jsmap"

definition QuickLRU_new :: "Options \<Rightarrow> error + ('k, 'v) QuickLRU" where
  "QuickLRU_new options =
     (case LRUBase_new options of
        Inl e \<Rightarrow> Inl e
      | Inr b \<Rightarrow> Inr \<lparr>base = b, map_priv = []\<rparr>)"

definition QuickLRU_clear :: "('k, 'v) QuickLRU \<Rightarrow> ('k, 'v) QuickLRU" where
  "QuickLRU_clear q = q\<lparr>base := LRUBase_clear (base q), map_priv := []\<rparr>"

definition QuickLRU_delete :: "'k \<Rightarrow> ('k, 'v) QuickLRU \<Rightarrow> bool \<times> ('k, 'v) QuickLRU" where
  "QuickLRU_delete key q =
     (case LRUBase_delete key (base q) of (r, b) \<Rightarrow> (r, q\<lparr>base := b\<rparr>))"

definition QuickLRU_get ::
  "int \<Rightarrow> 'k \<Rightarrow> ('k, 'v) QuickLRU \<Rightarrow> 'v option \<times> ('k, 'v) QuickLRU \<times> ('k, 'v) call list" where
  "QuickLRU_get now key q =
     (case LRUBase_get now key (base q) of (r, b, cs) \<Rightarrow> (r, q\<lparr>base := b\<rparr>, cs))"

definition QuickLRU_has ::
  "int \<Rightarrow> 'k \<Rightarrow> ('k, 'v) QuickLRU \<Rightarrow> bool \<times> ('k, 'v) QuickLRU \<times> ('k, 'v) call list" where
  "QuickLRU_has now key q =
     (case LRUBase_has now key (base q) of (r, b, cs) \<Rightarrow> (r, q\<lparr>base := b\<rparr>, cs))"

definition QuickLRU_set ::
  "int \<Rightarrow> 'k \<Rightarrow> 'v \<Rightarrow> ('k, 'v) QuickLRU \<Rightarrow> ('k, 'v) QuickLRU \<times> ('k, 'v) call list" where
  "QuickLRU_set now key v q =
     (case LRUBase_set now key v None (base q) of
        (b, cs) \<Rightarrow> (q\<lparr>base := b, map_priv := Map_set (map_priv q) key v\<rparr>, cs))"

definition QuickLRU_size :: "('k, 'v) QuickLRU \<Rightarrow> int" where
  "QuickLRU_size q = LRUBase_size (base q)"

definition QuickLRU_maxSize :: "('k, 'v) QuickLRU \<Rightarrow> int" where
  "QuickLRU_maxSize q = LRUBase_maxSize (base q)"

definition QuickLRU_peek ::
  "int \<Rightarrow> 'k \<Rightarrow> ('k, 'v) QuickLRU \<Rightarrow> 'v option \<times> ('k, 'v) QuickLRU \<times> ('k, 'v) call list" where
  "QuickLRU_peek now key q =
     (case LRUBase_peek now key (base q) of (r, b, cs) \<Rightarrow> (r, q\<lparr>base := b\<rparr>, cs))"

definition QuickLRU_resize ::
  "int \<Rightarrow> int \<Rightarrow> ('k, 'v) QuickLRU \<Rightarrow> error + (('k, 'v) QuickLRU \<times> ('k, 'v) call list)" where
  "QuickLRU_resize now maxSize' q =
     (case LRUBase_resize now maxSize' (base q) of
        Inl e \<Rightarrow> Inl e
      | Inr (b, cs) \<Rightarrow> Inr (q\<lparr>base := b\<rparr>, cs))"

definition QuickLRU_entriesAscending ::
  "int \<Rightarrow> ('k, 'v) QuickLRU \<Rightarrow> ('k \<times> 'v) list \<times> ('k, 'v) QuickLRU \<times> ('k, 'v) call list" where
  "QuickLRU_entriesAscending now q =
     (case LRUBase_entriesAscending now (base q) of (r, b, cs) \<Rightarrow> (r, q\<lparr>base := b\<rparr>, cs))"

definition QuickLRU_entriesDescending ::
  "int \<Rightarrow> ('k, 'v) QuickLRU \<Rightarrow> ('k \<times> 'v) list \<times> ('k, 'v) QuickLRU \<times> ('k, 'v) call list" where
  "QuickLRU_entriesDescending now q =
     (case LRUBase_entriesDescending now (base q) of (r, b, cs) \<Rightarrow> (r, q\<lparr>base := b\<rparr>, cs))"

definition QuickLRU_entries :: "('k, 'v) QuickLRU \<Rightarrow> ('k \<times> 'v) list" where
  "QuickLRU_entries q = map_priv q"

definition QuickLRU_keys :: "('k, 'v) QuickLRU \<Rightarrow> 'k list" where
  "QuickLRU_keys q = map fst (map_priv q)"

definition QuickLRU_values :: "('k, 'v) QuickLRU \<Rightarrow> 'v list" where
  "QuickLRU_values q = map snd (map_priv q)"

subsection \<open>Well-formed engine states\<close>

text \<open>
  What every state reached through the public operations satisfies: the keys of each \<open>Map\<close>
  are distinct, \<open>#size\<close> is the number of entries of the active generation and is below
  \<open>#maxSize\<close>, and the previous generation holds at most \<open>#maxSize\<close> entries.
\<close>

definition LRUBase_inv :: "('k, 'v) LRUBase \<Rightarrow> bool" where
  "LRUBase_inv s \<longleftrightarrow>
     distinct (map fst (cache s)) \<and> distinct (map fst (oldCache s)) \<and>
     size_priv s = int (length (cache s)) \<and> size_priv s < maxSize s \<and>
     int (length (oldCache s)) \<le> maxSize s"

subsection \<open>Sequences of operations\<close>

text \<open>
  A caller's operation, paired in a sequence with the clock reading it is made at. A
  \<open>resize\<close> that throws its \<open>TypeError\<close> has changed nothing, and the caller goes on.
\<close>

datatype ('k, 'v) operation =
    OpGet 'k | OpSet 'k 'v "jsnum option" | OpHas 'k | OpPeek 'k | OpDelete 'k
  | OpClear | OpResize int | OpEntriesAscending | OpEntriesDescending

fun LRUBase_step :: "int \<Rightarrow> ('k, 'v) operation \<Rightarrow> ('k, 'v) LRUBase \<Rightarrow> ('k, 'v) LRUBase" where
  "LRUBase_step now (OpGet key) s = fst (snd (LRUBase_get now key s))"
| "LRUBase_step now (OpSet key v a) s = fst (LRUBase_set now key v a s)"
| "LRUBase_step now (OpHas key) s = fst (snd (LRUBase_has now key s))"
| "LRUBase_step now (OpPeek key) s = fst (snd (LRUBase_peek now key s))"
| "LRUBase_step now (OpDelete key) s = snd (LRUBase_delete key s)"
| "LRUBase_step now OpClear s = LRUBase_clear s"
| "LRUBase_step now (OpResize n) s =
     (case LRUBase_resize now n s of Inl e \<Rightarrow> s | Inr r \<Rightarrow> fst r)"
| "LRUBase_step now OpEntriesAscending s = fst (snd (LRUBase_entriesAscending now s))"
| "LRUBase_step now OpEntriesDescending s = fst (snd (LRUBase_entriesDescending now s))"

fun LRUBase_run ::
  "(int \<times> ('k, 'v) operation) list \<Rightarrow> ('k, 'v) LRUBase \<Rightarrow> ('k, 'v) LRUBase" where
  "LRUBase_run [] s = s"
| "LRUBase_run (x # ops) s = LRUBase_run ops (LRUBase_step (fst x) (snd x) s)"

subsection \<open>The spec's reading of size\<close>

text \<open>
  The count the specification describes for \<open>size\<close>: the distinct keys of both generations
  whose authoritative entry (the active copy when a key is in both) has not expired at
  \<open>now\<close>.
\<close>

definition live_keys_count :: "int \<Rightarrow> ('k, 'v) LRUBase \<Rightarrow> int" where
  "live_keys_count now s =
     int (length (filter (\<lambda>p. \<not> is_expired now (snd p)) (cache s)))
     + int (length (filter (\<lambda>p. \<not> Map_has (cache s) (fst p) \<and> \<not> is_expired now (snd p))
                     (oldCache s)))"


subsection \<open>Vocabulary of the claims\<close>

text \<open>No entry of either generation is expired at \<open>now\<close>; the pair an iterator yields.\<close>

definition no_expired :: "int \<Rightarrow> ('k, 'v) LRUBase \<Rightarrow> bool" where
  "no_expired now s = list_all (\<lambda>p. \<not> is_expired now (snd p)) (cache s @ oldCache s)"

definition key_value :: "'k \<times> 'v CacheItem \<Rightarrow> 'k \<times> 'v" where
  "key_value p = (fst p, item_value (snd p))"


subsection \<open>Sequences of facade operations\<close>

text \<open>
  The operations of \<open>QuickLRU\<close> that change something, each made at a clock reading; the
  entries a sequence passes to \<open>set\<close>, in order; the keys of a list in the order of their
  first occurrence.
\<close>

datatype ('k, 'v) facade_operation =
    FGet 'k | FSet 'k 'v | FHas 'k | FPeek 'k | FDelete 'k
  | FClear | FResize int | FEntriesAscending | FEntriesDescending

fun QuickLRU_step ::
  "int \<Rightarrow> ('k, 'v) facade_operation \<Rightarrow> ('k, 'v) QuickLRU \<Rightarrow> ('k, 'v) QuickLRU" where
  "QuickLRU_step now (FGet key) q = fst (snd (QuickLRU_get now key q))"
| "QuickLRU_step now (FSet key v) q = fst (QuickLRU_set now key v q)"
| "QuickLRU_step now (FHas key) q = fst (snd (QuickLRU_has now key q))"
| "QuickLRU_step now (FPeek key) q = fst (snd (QuickLRU_peek now key q))"
| "QuickLRU_step now (FDelete key) q = snd (QuickLRU_delete key q)"
| "QuickLRU_step now FClear q = QuickLRU_clear q"
| "QuickLRU_step now (FResize n) q =
     (case QuickLRU_resize now n q of Inl e \<Rightarrow> q | Inr r \<Rightarrow> fst r)"
| "QuickLRU_step now FEntriesAscending q = fst (snd (QuickLRU_entriesAscending now q))"
| "QuickLRU_step now FEntriesDescending q = fst (snd (QuickLRU_entriesDescending now q))"

fun QuickLRU_run ::
  "(int \<times> ('k, 'v) facade_operation) list \<Rightarrow> ('k, 'v) QuickLRU \<Rightarrow> ('k, 'v) QuickLRU" where
  "QuickLRU_run [] q = q"
| "QuickLRU_run (x # ops) q = QuickLRU_run ops (QuickLRU_step (fst x) (snd x) q)"

fun set_entries :: "(int \<times> ('k, 'v) facade_operation) list \<Rightarrow> ('k \<times> 'v) list" where
  "set_entries [] = []"
| "set_entries ((now, FSet key v) # ops) = (key, v) # set_entries ops"
| "set_entries (x # ops) = set_entries ops"

fun first_occurrences :: "'k list \<Rightarrow> 'k list" where
  "first_occurrences [] = []"
| "first_occurrences (k # ks) = k # filter (\<lambda>x. x \<noteq> k) (first_occurrences ks)"


subsection \<open>The entry of a key\<close>

text \<open>
  The entry \<open>get\<close>, \<open>has\<close> and \<open>peek\<close> find for a key: the one of the active generation,
  else the one of the previous generation.
\<close>

definition LRUBase_lookup :: "('k, 'v) LRUBase \<Rightarrow> 'k \<Rightarrow> 'v CacheItem option" where
  "LRUBase_lookup s key =
     (case Map_get (cache s) key of Some item \<Rightarrow> Some item | None \<Rightarrow> Map_get (oldCache s) key)"

text \<open>
  A step from \<open>s\<close> to \<open>s'\<close> that writes no entry: every key has in \<open>s'\<close> the entry it had
  in \<open>s\<close>, or none.
\<close>

definition only_forgets :: "('k, 'v) LRUBase \<Rightarrow> ('k, 'v) LRUBase \<Rightarrow> bool" where
  "only_forgets s s' \<longleftrightarrow>
     (\<forall>key. LRUBase_lookup s' key = None \<or> LRUBase_lookup s' key = LRUBase_lookup s key)"

text \<open>The operation is a \<open>set\<close> of the key.\<close>

definition sets_key :: "'k \<Rightarrow> ('k, 'v) operation \<Rightarrow> bool" where
  "sets_key key x = (case x of OpSet k v a \<Rightarrow> k = key | _ \<Rightarrow> False)"

text \<open>
  The expiry time \<open>set\<close> computes at clock reading \<open>now\<close>: \<open>options.maxAge ?? this.#maxAge\<close>,
  added to the clock unless it is infinite.
\<close>

definition set_expiry :: "int \<Rightarrow> jsnum option \<Rightarrow> ('k, 'v) LRUBase \<Rightarrow> int option" where
  "set_expiry now options_maxAge s =
     (case (case options_maxAge of None \<Rightarrow> maxAge s | Some a \<Rightarrow> a) of
        Num a \<Rightarrow> Some (now + a)
      | POSITIVE_INFINITY \<Rightarrow> None)"

text \<open>
  The documented contract of the inputs: a \<open>maxAge\<close> is a duration greater than 0 (or
  infinite, or absent), and the clock counts milliseconds since the epoch, so its readings
  are not negative. Under it every expiry time stored is positive.
\<close>

definition valid_maxAge :: "jsnum option \<Rightarrow> bool" where
  "valid_maxAge a = (case a of Some (Num d) \<Rightarrow> 0 < d | _ \<Rightarrow> True)"

definition valid_operation :: "int \<times> ('k, 'v) operation \<Rightarrow> bool" where
  "valid_operation x =
     (0 \<le> fst x \<and> (case snd x of OpSet k v a \<Rightarrow> valid_maxAge a | _ \<Rightarrow> True))"

definition positive_expiries :: "('k, 'v) LRUBase \<Rightarrow> bool" where
  "positive_expiries s \<longleftrightarrow>
     (\<forall>key item e. LRUBase_lookup s key = Some item \<and> expiry item = Some e \<longrightarrow> 0 < e)
     \<and> (case maxAge s of Num d \<Rightarrow> 0 < d | POSITIVE_INFINITY \<Rightarrow> True)"


subsection \<open>The ways an entry is removed\<close>

text \<open>The entry found for the key has an expiry time that has passed at \<open>now\<close>.\<close>

definition expired_entry :: "int \<Rightarrow> ('k, 'v) LRUBase \<Rightarrow> 'k \<Rightarrow> bool" where
  "expired_entry now s key =
     (case LRUBase_lookup s key of None \<Rightarrow> False | Some item \<Rightarrow> is_expired now item)"

text \<open>
  The key an operation adds to the active generation through \<open>#set\<close>: \<open>set\<close> of a key that
  is not in the active generation, and \<open>get\<close> of a key it promotes from the previous one.
\<close>

definition inserted_key :: "int \<Rightarrow> ('k, 'v) operation \<Rightarrow> ('k, 'v) LRUBase \<Rightarrow> 'k option" where
  "inserted_key now x s =
     (case x of
        OpSet k v a \<Rightarrow> if Map_has (cache s) k then None else Some k
      | OpGet k \<Rightarrow>
          if Map_has (cache s) k then None
          else (case Map_get (oldCache s) k of
                  None \<Rightarrow> None
                | Some item \<Rightarrow> if is_expired now item then None else Some k)
      | _ \<Rightarrow> None)"

text \<open>
  Rotation-eviction: the operation adds another key through \<open>#set\<close>, the active-count
  reaches \<open>maxSize\<close>, and the key is in the previous generation only, which is discarded.
\<close>

definition rotation_evicts ::
  "int \<Rightarrow> ('k, 'v) operation \<Rightarrow> ('k, 'v) LRUBase \<Rightarrow> 'k \<Rightarrow> bool" where
  "rotation_evicts now x s key =
     (case inserted_key now x s of
        None \<Rightarrow> False
      | Some k \<Rightarrow> k \<noteq> key \<and> maxSize s \<le> size_priv s + 1 \<and> \<not> Map_has (cache s) key)"

text \<open>
  Resize-eviction: the key is among the oldest \<open>overflow\<close> entries the collecting walk of
  an accepted \<open>resize\<close> yields.
\<close>

definition resize_evicts ::
  "int \<Rightarrow> ('k, 'v) operation \<Rightarrow> ('k, 'v) LRUBase \<Rightarrow> 'k \<Rightarrow> bool" where
  "resize_evicts now x s key =
     (case x of
        OpResize n \<Rightarrow>
          0 < n \<and>
          (let items = fst (LRUBase_entriesAscending_priv now s)
           in Map_has (take (nat (int (length items) - n)) items) key)
      | _ \<Rightarrow> False)"

text \<open>
  TTL expiry: the operation visits the entry of the key (\<open>get\<close>, \<open>has\<close>, \<open>peek\<close> of that key,
  either iteration, the collecting walk of an accepted \<open>resize\<close>) and its expiry time has
  passed.
\<close>

definition expires :: "int \<Rightarrow> ('k, 'v) operation \<Rightarrow> ('k, 'v) LRUBase \<Rightarrow> 'k \<Rightarrow> bool" where
  "expires now x s key =
     (case x of
        OpGet k \<Rightarrow> k = key \<and> expired_entry now s key
      | OpHas k \<Rightarrow> k = key \<and> expired_entry now s key
      | OpPeek k \<Rightarrow> k = key \<and> expired_entry now s key
      | OpResize n \<Rightarrow> 0 < n \<and> expired_entry now s key
      | OpEntriesAscending \<Rightarrow> expired_entry now s key
      | OpEntriesDescending \<Rightarrow> expired_entry now s key
      | _ \<Rightarrow> False)"

text \<open>
  The operation removes the key: \<open>delete\<close> of it, \<open>clear\<close>, rotation-eviction,
  resize-eviction or TTL expiry. A sequence of operations from a state does not remove the
  key when none of its operations does, each in the state it is made in.
\<close>

definition removes :: "int \<Rightarrow> ('k, 'v) operation \<Rightarrow> ('k, 'v) LRUBase \<Rightarrow> 'k \<Rightarrow> bool" where
  "removes now x s key =
     ((case x of OpDelete k \<Rightarrow> k = key | OpClear \<Rightarrow> True | _ \<Rightarrow> False)
      \<or> rotation_evicts now x s key \<or> resize_evicts now x s key \<or> expires now x s key)"

fun not_removed ::
  "(int \<times> ('k, 'v) operation) list \<Rightarrow> ('k, 'v) LRUBase \<Rightarrow> 'k \<Rightarrow> bool" where
  "not_removed [] s key = True"
| "not_removed (x # ops) s key =
     (\<not> removes (fst x) (snd x) s key
      \<and> not_removed ops (LRUBase_step (fst x) (snd x) s) key)"

section \<open>Unfolding the engine on concrete inputs\<close>

lemmas lru_defs = LRUBase_new_def LRUBase_set_def LRUBase_get_def LRUBase_set_priv_def
  LRUBase_moveToRecent_def LRUBase_deleteIfExpired_def LRUBase_emitEvictions_def
  LRUBase_getItemValue_def LRUBase_getOrDeleteIfExpired_def LRUBase_delete_def
  LRUBase_has_def LRUBase_peek_def LRUBase_peek_priv_def
  Map_has_def Map_get_def Map_delete_def is_expired_def truthy_expiry_def notified_def

section \<open>Facts\<close>

subsection \<open>Facts about the Map model\<close>

lemma Map_has_iff: "Map_has m k \<longleftrightarrow> k \<in> fst ` set m"
  by (simp add: Map_has_def map_of_eq_None_iff)

lemma map_of_Map_set: "map_of (Map_set m k v) = (map_of m)(k \<mapsto> v)"
  by (induction m) auto

lemma map_of_Map_delete: "map_of (Map_delete m k) = (map_of m)(k := None)"
  by (induction m) (auto simp: Map_delete_def)

lemma Map_set_absent: "\<not> Map_has m k \<Longrightarrow> Map_set m k v = m @ [(k, v)]"
  by (induction m) (auto simp: Map_has_iff)

lemma keys_Map_set_present: "Map_has m k \<Longrightarrow> map fst (Map_set m k v) = map fst m"
  by (induction m) (auto simp: Map_has_iff)

lemma length_Map_set_present: "Map_has m k \<Longrightarrow> length (Map_set m k v) = length m"
  by (induction m) (auto simp: Map_has_iff)

lemma Map_delete_absent: "\<not> Map_has m k \<Longrightarrow> Map_delete m k = m"
  by (induction m) (auto simp: Map_has_iff Map_delete_def)

lemma keys_Map_delete: "map fst (Map_delete m k) = filter (\<lambda>x. x \<noteq> k) (map fst m)"
  by (simp add: Map_delete_def filter_map o_def)

lemma distinct_Map_delete: "distinct (map fst m) \<Longrightarrow> distinct (map fst (Map_delete m k))"
  by (simp add: keys_Map_delete)

lemma length_Map_delete_present:
  "distinct (map fst m) \<Longrightarrow> Map_has m k \<Longrightarrow> Suc (length (Map_delete m k)) = length m"
proof (induction m)
  case Nil
  then show ?case by (simp add: Map_has_def)
next
  case (Cons p m)
  show ?case
  proof (cases "fst p = k")
    case True
    then have "\<not> Map_has m k"
      using Cons.prems(1) by (auto simp: Map_has_iff)
    then have "Map_delete m k = m"
      by (rule Map_delete_absent)
    then show ?thesis
      using True by (simp add: Map_delete_def)
  next
    case False
    then have "Map_has m k"
      using Cons.prems(2) by (auto simp: Map_has_iff)
    then have "Suc (length (Map_delete m k)) = length m"
      using Cons.IH Cons.prems(1) by simp
    then show ?thesis
      using False by (simp add: Map_delete_def)
  qed
qed

lemma length_Map_delete_le: "length (Map_delete m k) \<le> length m"
  by (simp add: Map_delete_def)

lemma Map_has_Map_delete: "Map_has (Map_delete m k) k' \<longleftrightarrow> Map_has m k' \<and> k' \<noteq> k"
  by (auto simp: Map_has_def map_of_Map_delete)

lemma foldl_Map_set_distinct:
  "distinct (map fst (acc @ items)) \<Longrightarrow>
   foldl (\<lambda>m p. Map_set m (fst p) (snd p)) acc items = acc @ items"
proof (induction items arbitrary: acc)
  case Nil
  then show ?case by simp
next
  case (Cons p items)
  have absent: "\<not> Map_has acc (fst p)"
    using Cons.prems by (auto simp: Map_has_iff)
  have "distinct (map fst ((acc @ [p]) @ items))"
    using Cons.prems by simp
  then have "foldl (\<lambda>m p. Map_set m (fst p) (snd p)) (acc @ [p]) items = (acc @ [p]) @ items"
    by (rule Cons.IH)
  then show ?case
    using absent by (simp add: Map_set_absent)
qed

lemma Map_new_distinct: "distinct (map fst items) \<Longrightarrow> Map_new items = items"
  using foldl_Map_set_distinct [of "[]" items] by (simp add: Map_new_def)


subsection \<open>The invariant is kept by every operation\<close>

lemma inv_new: "LRUBase_new options = Inr s \<Longrightarrow> LRUBase_inv s"
  by (auto simp: LRUBase_new_def LRUBase_inv_def split: if_splits)

lemma inv_clear: "LRUBase_inv s \<Longrightarrow> LRUBase_inv (LRUBase_clear s)"
  by (simp add: LRUBase_inv_def LRUBase_clear_def)

lemma inv_delete: 
  assumes "LRUBase_inv s"
  shows "LRUBase_inv (snd (LRUBase_delete key s))"
proof -
  have old: "int (length (Map_delete (oldCache s) key)) \<le> maxSize s"
    using assms length_Map_delete_le [of "oldCache s" key] by (simp add: LRUBase_inv_def)
  show ?thesis
  proof (cases "Map_has (cache s) key")
    case True
    then have "Suc (length (Map_delete (cache s) key)) = length (cache s)"
      using assms by (simp add: LRUBase_inv_def length_Map_delete_present)
    then have "int (length (Map_delete (cache s) key)) = int (length (cache s)) - 1"
      by linarith
    then show ?thesis
      using assms old True
      by (simp add: LRUBase_inv_def LRUBase_delete_def distinct_Map_delete)
  next
    case False
    then show ?thesis
      using assms old
      by (simp add: LRUBase_inv_def LRUBase_delete_def distinct_Map_delete Map_delete_absent)
  qed
qed

lemma deleteIfExpired_result:
  "fst (LRUBase_deleteIfExpired now key item s)
     = (is_expired now item \<and> fst (LRUBase_delete key s))"
  by (simp add: LRUBase_deleteIfExpired_def Let_def)

lemma deleteIfExpired_state:
  "fst (snd (LRUBase_deleteIfExpired now key item s))
     = (if is_expired now item then snd (LRUBase_delete key s) else s)"
  by (simp add: LRUBase_deleteIfExpired_def Let_def)

lemma deleteIfExpired_calls:
  "snd (snd (LRUBase_deleteIfExpired now key item s))
     = (if is_expired now item \<and> onEviction s then [(key, item_value item, s)] else [])"
  by (simp add: LRUBase_deleteIfExpired_def Let_def)

lemma inv_deleteIfExpired:
  "LRUBase_inv s \<Longrightarrow> LRUBase_inv (fst (snd (LRUBase_deleteIfExpired now key item s)))"
  by (simp add: deleteIfExpired_state inv_delete)

lemma inv_set_priv:
  assumes "LRUBase_inv s" and "\<not> Map_has (cache s) key"
  shows "LRUBase_inv (fst (LRUBase_set_priv key item s))"
proof -
  have keys: "distinct (map fst (cache s @ [(key, item)]))"
    using assms by (auto simp: LRUBase_inv_def Map_has_iff)
  show ?thesis
    using assms keys
    by (auto simp: LRUBase_inv_def LRUBase_set_priv_def Map_set_absent Let_def)
qed

lemma inv_moveToRecent:
  assumes "LRUBase_inv s" and "\<not> Map_has (cache s) key"
  shows "LRUBase_inv (fst (LRUBase_moveToRecent key item s))"
proof -
  have "LRUBase_inv (s\<lparr>oldCache := Map_delete (oldCache s) key\<rparr>)"
    using assms(1) length_Map_delete_le [of "oldCache s" key]
    by (simp add: LRUBase_inv_def distinct_Map_delete)
  then show ?thesis
    using assms(2) by (simp add: LRUBase_moveToRecent_def inv_set_priv)
qed

lemma cache_deleteIfExpired_absent:
  "\<not> Map_has (cache s) key \<Longrightarrow>
   cache (fst (snd (LRUBase_deleteIfExpired now key item s))) = cache s"
  by (simp add: LRUBase_deleteIfExpired_def LRUBase_delete_def Map_delete_absent)

lemma inv_getItemValue:
  "LRUBase_inv s \<Longrightarrow> LRUBase_inv (fst (snd (LRUBase_getItemValue now key item s)))"
  using inv_deleteIfExpired [of s now key item]
  by (simp add: LRUBase_getItemValue_def LRUBase_getOrDeleteIfExpired_def case_prod_beta)

lemma inv_get:
  assumes "LRUBase_inv s"
  shows "LRUBase_inv (fst (snd (LRUBase_get now key s)))"
proof (cases "Map_has (cache s) key")
  case True
  then show ?thesis
    using assms by (simp add: LRUBase_get_def inv_getItemValue split: option.splits)
next
  case False
  show ?thesis
  proof (cases "Map_get (oldCache s) key")
    case None
    then show ?thesis
      using assms False by (simp add: LRUBase_get_def)
  next
    case (Some item)
    obtain d s1 c1 where del: "LRUBase_deleteIfExpired now key item s = (d, s1, c1)"
      by (cases "LRUBase_deleteIfExpired now key item s") auto
    have s1: "LRUBase_inv s1" "cache s1 = cache s"
      using assms False inv_deleteIfExpired [of s now key item]
        cache_deleteIfExpired_absent [of s key now item] del by simp_all
    then have "LRUBase_inv (fst (LRUBase_moveToRecent key item s1))"
      using False by (simp add: inv_moveToRecent)
    then show ?thesis
      using assms False Some del s1
      by (simp add: LRUBase_get_def case_prod_beta)
  qed
qed

lemma inv_set:
  assumes "LRUBase_inv s"
  shows "LRUBase_inv (fst (LRUBase_set now key v a s))"
proof (cases "Map_has (cache s) key")
  case True
  then show ?thesis
    using assms
    by (simp add: LRUBase_set_def LRUBase_inv_def keys_Map_set_present length_Map_set_present)
next
  case False
  then show ?thesis
    using assms by (simp add: LRUBase_set_def inv_set_priv)
qed

lemma inv_has: "LRUBase_inv s \<Longrightarrow> LRUBase_inv (fst (snd (LRUBase_has now key s)))"
  using inv_deleteIfExpired [of s now key]
  by (simp add: LRUBase_has_def case_prod_beta split: option.splits)

lemma inv_peek: "LRUBase_inv s \<Longrightarrow> LRUBase_inv (fst (snd (LRUBase_peek now key s)))"
  by (simp add: LRUBase_peek_def LRUBase_peek_priv_def inv_getItemValue split: option.splits)


subsection \<open>The walks of the iterators\<close>

lemma cache_delete_absent: "\<not> Map_has (cache s) key \<Longrightarrow> cache (snd (LRUBase_delete key s)) = cache s"
  by (simp add: LRUBase_delete_def Map_delete_absent Let_def)

lemma maxSize_delete: "maxSize (snd (LRUBase_delete key s)) = maxSize s"
  by (simp add: LRUBase_delete_def Let_def)

lemma onEviction_delete: "onEviction (snd (LRUBase_delete key s)) = onEviction s"
  by (simp add: LRUBase_delete_def Let_def)

lemma inv_ascending_old:
  "LRUBase_inv s \<Longrightarrow> LRUBase_inv (fst (snd (ascending_old now xs s)))"
  by (induction xs arbitrary: s) (simp_all add: case_prod_beta inv_deleteIfExpired)

lemma inv_ascending_cache:
  "LRUBase_inv s \<Longrightarrow> LRUBase_inv (fst (snd (ascending_cache now xs s)))"
  by (induction xs arbitrary: s) (simp_all add: case_prod_beta inv_deleteIfExpired)

lemma inv_descending_old:
  "LRUBase_inv s \<Longrightarrow> LRUBase_inv (fst (snd (descending_old now xs s)))"
  by (induction xs arbitrary: s) (simp_all add: case_prod_beta inv_deleteIfExpired)

lemma inv_descending_cache:
  "LRUBase_inv s \<Longrightarrow> LRUBase_inv (fst (snd (descending_cache now xs s)))"
  by (induction xs arbitrary: s) (simp_all add: case_prod_beta inv_deleteIfExpired)

lemma cache_ascending_old: "cache (fst (snd (ascending_old now xs s))) = cache s"
  by (induction xs arbitrary: s)
     (simp_all add: case_prod_beta deleteIfExpired_state cache_delete_absent)

lemma maxSize_ascending_old: "maxSize (fst (snd (ascending_old now xs s))) = maxSize s"
  by (induction xs arbitrary: s)
     (simp_all add: case_prod_beta deleteIfExpired_state maxSize_delete)

lemma maxSize_ascending_cache: "maxSize (fst (snd (ascending_cache now xs s))) = maxSize s"
  by (induction xs arbitrary: s)
     (simp_all add: case_prod_beta deleteIfExpired_state maxSize_delete)

lemma items_ascending_old:
  "set (fst (ascending_old now xs s))
     \<subseteq> {p \<in> set xs. \<not> Map_has (cache s) (fst p)}"
proof (induction xs arbitrary: s)
  case Nil
  then show ?case by simp
next
  case (Cons p rest)
  show ?case
  proof (cases "Map_has (cache s) (fst p)")
    case True
    then show ?thesis
      using Cons.IH [of s] by auto
  next
    case False
    let ?s1 = "fst (snd (LRUBase_deleteIfExpired now (fst p) (snd p) s))"
    have "cache ?s1 = cache s"
      using False by (rule cache_deleteIfExpired_absent)
    then show ?thesis
      using False Cons.IH [of ?s1]
      by (auto simp: case_prod_beta deleteIfExpired_result)
  qed
qed

lemma items_ascending_cache:
  "set (fst (ascending_cache now xs s)) \<subseteq> set xs"
proof (induction xs arbitrary: s)
  case Nil
  then show ?case by simp
next
  case (Cons p rest)
  let ?s1 = "fst (snd (LRUBase_deleteIfExpired now (fst p) (snd p) s))"
  show ?case
    using Cons.IH [of ?s1] by (auto simp: case_prod_beta deleteIfExpired_result)
qed

lemma distinct_ascending_old:
  "distinct (map fst xs) \<Longrightarrow> distinct (map fst (fst (ascending_old now xs s)))"
proof (induction xs arbitrary: s)
  case Nil
  then show ?case by simp
next
  case (Cons p rest)
  have "fst p \<notin> fst ` set (fst (ascending_old now rest s'))" for s'
    using Cons.prems items_ascending_old [of now rest s'] by auto
  then show ?case
    using Cons by (simp add: case_prod_beta)
qed

lemma distinct_ascending_cache:
  "distinct (map fst xs) \<Longrightarrow> distinct (map fst (fst (ascending_cache now xs s)))"
proof (induction xs arbitrary: s)
  case Nil
  then show ?case by simp
next
  case (Cons p rest)
  have "fst p \<notin> fst ` set (fst (ascending_cache now rest s'))" for s'
    using Cons.prems items_ascending_cache [of now rest s'] by auto
  then show ?case
    using Cons by (simp add: case_prod_beta)
qed

lemma inv_entriesAscending_priv:
  "LRUBase_inv s \<Longrightarrow> LRUBase_inv (fst (snd (LRUBase_entriesAscending_priv now s)))"
  by (simp add: LRUBase_entriesAscending_priv_def case_prod_beta
        inv_ascending_old inv_ascending_cache)

lemma maxSize_entriesAscending_priv:
  "maxSize (fst (snd (LRUBase_entriesAscending_priv now s))) = maxSize s"
  by (simp add: LRUBase_entriesAscending_priv_def case_prod_beta
        maxSize_ascending_old maxSize_ascending_cache)

lemma distinct_entriesAscending_priv:
  assumes "LRUBase_inv s"
  shows "distinct (map fst (fst (LRUBase_entriesAscending_priv now s)))"
proof -
  let ?r1 = "ascending_old now (oldCache s) s"
  let ?s1 = "fst (snd ?r1)"
  let ?r2 = "ascending_cache now (cache ?s1) ?s1"
  have d1: "distinct (map fst (fst ?r1))"
    using assms by (simp add: LRUBase_inv_def distinct_ascending_old)
  have c: "cache ?s1 = cache s"
    by (rule cache_ascending_old)
  have d2: "distinct (map fst (fst ?r2))"
    using assms c by (simp add: LRUBase_inv_def distinct_ascending_cache)
  have k1: "\<forall>p \<in> set (fst ?r1). \<not> Map_has (cache s) (fst p)"
    using items_ascending_old [of now "oldCache s" s] by auto
  have k2: "\<forall>p \<in> set (fst ?r2). Map_has (cache s) (fst p)"
    using items_ascending_cache [of now "cache ?s1" ?s1] c by (auto simp: Map_has_iff)
  have "fst ` set (fst ?r1) \<inter> fst ` set (fst ?r2) = {}"
    using k1 k2 by fastforce
  then show ?thesis
    using d1 d2 by (simp add: LRUBase_entriesAscending_priv_def case_prod_beta)
qed

lemma inv_resize:
  assumes "LRUBase_inv s" and "LRUBase_resize now n s = Inr (s', cs)"
  shows "LRUBase_inv s'"
proof -
  let ?r = "LRUBase_entriesAscending_priv now s"
  let ?items = "fst ?r"
  have n: "0 < n"
    using assms(2) by (auto simp: LRUBase_resize_def split: if_splits)
  have d: "distinct (map fst ?items)"
    using assms(1) by (rule distinct_entriesAscending_priv)
  show ?thesis
  proof (cases "int (length ?items) - n < 0")
    case True
    then have "s' = (fst (snd ?r))\<lparr>cache := Map_new ?items, oldCache := [],
                 size_priv := int (length ?items), maxSize := n\<rparr>"
      using assms(2) n by (auto simp: LRUBase_resize_def case_prod_beta Let_def)
    then show ?thesis
      using True d by (simp add: LRUBase_inv_def Map_new_distinct)
  next
    case False
    let ?k = "nat (int (length ?items) - n)"
    have dd: "distinct (map fst (drop ?k ?items))"
      using d by (simp add: drop_map [symmetric])
    have "s' = (fst (snd ?r))\<lparr>oldCache := Map_new (drop ?k ?items), cache := [],
                 size_priv := 0, maxSize := n\<rparr>"
      using assms(2) n False by (auto simp: LRUBase_resize_def case_prod_beta Let_def)
    then show ?thesis
      using False n dd by (simp add: LRUBase_inv_def Map_new_distinct)
  qed
qed

lemma inv_entriesAscending:
  "LRUBase_inv s \<Longrightarrow> LRUBase_inv (fst (snd (LRUBase_entriesAscending now s)))"
  by (simp add: LRUBase_entriesAscending_def case_prod_beta inv_entriesAscending_priv)

lemma inv_entriesDescending:
  "LRUBase_inv s \<Longrightarrow> LRUBase_inv (fst (snd (LRUBase_entriesDescending now s)))"
  by (simp add: LRUBase_entriesDescending_def case_prod_beta
        inv_descending_cache inv_descending_old)

lemma size_le_maxSize_inv: "LRUBase_inv s \<Longrightarrow> LRUBase_size s \<le> LRUBase_maxSize s"
  by (simp add: LRUBase_inv_def LRUBase_size_def LRUBase_maxSize_def)


lemma inv_step: "LRUBase_inv s \<Longrightarrow> LRUBase_inv (LRUBase_step now x s)"
proof (cases x)
  case (OpResize n)
  then show "LRUBase_inv s \<Longrightarrow> LRUBase_inv (LRUBase_step now x s)"
    using inv_resize [of s now n] by (auto split: sum.splits)
qed (simp_all add: inv_get inv_set inv_has inv_peek inv_delete inv_clear
       inv_entriesAscending inv_entriesDescending)

lemma inv_run: "LRUBase_inv s \<Longrightarrow> LRUBase_inv (LRUBase_run ops s)"
  by (induction ops arbitrary: s) (simp_all add: inv_step)

lemma nonshadowed_card:
  assumes "distinct (map fst old)"
  shows "length (filter (\<lambda>key. \<not> Map_has c key) (map fst old))
           = card (fst ` set old - fst ` set c)"
proof -
  have "distinct (filter (\<lambda>key. \<not> Map_has c key) (map fst old))"
    using assms by simp
  then have "length (filter (\<lambda>key. \<not> Map_has c key) (map fst old))
               = card (set (filter (\<lambda>key. \<not> Map_has c key) (map fst old)))"
    by (rule distinct_card [symmetric])
  also have "set (filter (\<lambda>key. \<not> Map_has c key) (map fst old)) = fst ` set old - fst ` set c"
    by (auto simp: Map_has_iff)
  finally show ?thesis .
qed

lemma size_formula_inv:
  assumes "LRUBase_inv s"
  shows "LRUBase_size s
           = min (maxSize s)
               (size_priv s
                + int (length (filter (\<lambda>key. \<not> Map_has (cache s) key) (map fst (oldCache s)))))"
proof (cases "size_priv s = 0")
  case True
  then have "cache s = []"
    using assms by (simp add: LRUBase_inv_def)
  then show ?thesis
    using assms True by (simp add: LRUBase_inv_def LRUBase_size_def Map_has_def)
next
  case False
  then show ?thesis
    by (simp add: LRUBase_size_def min.commute)
qed

lemma present_keys_card:
  assumes "LRUBase_inv s"
  shows "size_priv s
           + int (length (filter (\<lambda>key. \<not> Map_has (cache s) key) (map fst (oldCache s))))
         = int (card (fst ` set (cache s) \<union> fst ` set (oldCache s)))"
proof -
  let ?A = "fst ` set (cache s)" and ?B = "fst ` set (oldCache s)"
  have a: "size_priv s = int (card ?A)"
    using assms distinct_card [of "map fst (cache s)"] by (simp add: LRUBase_inv_def)
  have b: "length (filter (\<lambda>key. \<not> Map_has (cache s) key) (map fst (oldCache s))) = card (?B - ?A)"
    using assms nonshadowed_card [of "oldCache s" "cache s"] by (simp only: LRUBase_inv_def)
  have "card (?A \<union> ?B) = card ?A + card (?B - ?A)"
    by (simp add: card_Un_disjoint [of ?A "?B - ?A", simplified])
  then show ?thesis
    using a b by simp
qed



subsection \<open>Walks over entries none of which is expired\<close>

lemma deleteIfExpired_fresh:
  "\<not> is_expired now item \<Longrightarrow> LRUBase_deleteIfExpired now key item s = (False, s, [])"
  by (simp add: LRUBase_deleteIfExpired_def)

lemma ascending_old_fresh:
  "list_all (\<lambda>p. \<not> is_expired now (snd p)) xs \<Longrightarrow>
   ascending_old now xs s = (filter (\<lambda>p. \<not> Map_has (cache s) (fst p)) xs, s, [])"
  by (induction xs) (simp_all add: deleteIfExpired_fresh)

lemma ascending_cache_fresh:
  "list_all (\<lambda>p. \<not> is_expired now (snd p)) xs \<Longrightarrow> ascending_cache now xs s = (xs, s, [])"
  by (induction xs) (simp_all add: deleteIfExpired_fresh)

lemma descending_cache_fresh:
  "list_all (\<lambda>p. \<not> is_expired now (snd p)) xs \<Longrightarrow>
   descending_cache now xs s = (map (\<lambda>p. (fst p, item_value (snd p))) xs, s, [])"
  by (induction xs) (simp_all add: deleteIfExpired_fresh)

lemma descending_old_fresh:
  "list_all (\<lambda>p. \<not> is_expired now (snd p)) xs \<Longrightarrow>
   descending_old now xs s
     = (map (\<lambda>p. (fst p, item_value (snd p))) (filter (\<lambda>p. \<not> Map_has (cache s) (fst p)) xs), s, [])"
  by (induction xs) (simp_all add: deleteIfExpired_fresh)

lemma entriesAscending_priv_fresh:
  "no_expired now s \<Longrightarrow>
   LRUBase_entriesAscending_priv now s
     = (filter (\<lambda>p. \<not> Map_has (cache s) (fst p)) (oldCache s) @ cache s, s, [])"
  by (simp add: no_expired_def LRUBase_entriesAscending_priv_def
        ascending_old_fresh ascending_cache_fresh)

subsection \<open>The notifications of a walk\<close>





subsection \<open>The mirror of the facade\<close>

lemma set_first_occurrences: "set (first_occurrences ks) = set ks"
  by (induction ks) auto

lemma distinct_first_occurrences: "distinct (first_occurrences ks)"
  by (induction ks) (auto simp: set_first_occurrences)

lemma length_first_occurrences: "length (first_occurrences ks) = card (set ks)"
  using distinct_card [OF distinct_first_occurrences, of ks]
  by (simp add: set_first_occurrences)

lemma keys_foldl_Map_set:
  "map fst (foldl (\<lambda>m p. Map_set m (fst p) (snd p)) m kvs)
     = map fst m @ filter (\<lambda>k. k \<notin> fst ` set m) (first_occurrences (map fst kvs))"
proof (induction kvs arbitrary: m)
  case Nil
  then show ?case by simp
next
  case (Cons p kvs)
  show ?case
  proof (cases "Map_has m (fst p)")
    case True
    then have "fst ` set (Map_set m (fst p) (snd p)) = fst ` set m"
      using keys_Map_set_present [of m "fst p" "snd p"] by (metis set_map)
    moreover have "fst p \<in> fst ` set m"
      using True by (simp add: Map_has_iff)
    ultimately show ?thesis
      using True Cons.IH [of "Map_set m (fst p) (snd p)"]
      by (auto simp: keys_Map_set_present intro!: filter_cong)
  next
    case False
    then have "fst p \<notin> fst ` set m"
      by (simp add: Map_has_iff)
    then show ?thesis
      using False Cons.IH [of "m @ [p]"]
      by (auto simp: Map_set_absent intro!: filter_cong)
  qed
qed

lemma map_of_foldl_Map_set:
  "map_of (foldl (\<lambda>m p. Map_set m (fst p) (snd p)) m kvs) = map_of m ++ map_of (rev kvs)"
  by (induction kvs arbitrary: m) (simp_all add: map_of_Map_set)

lemma map_priv_step:
  "x \<noteq> FClear \<Longrightarrow>
   map_priv (QuickLRU_step now x q)
     = (case x of FSet key v \<Rightarrow> Map_set (map_priv q) key v | _ \<Rightarrow> map_priv q)"
  by (cases x)
     (simp_all add: QuickLRU_get_def QuickLRU_set_def QuickLRU_has_def QuickLRU_peek_def
        QuickLRU_delete_def QuickLRU_resize_def QuickLRU_entriesAscending_def
        QuickLRU_entriesDescending_def case_prod_beta split: sum.splits)

lemma map_priv_run:
  "FClear \<notin> snd ` set ops \<Longrightarrow>
   map_priv (QuickLRU_run ops q)
     = foldl (\<lambda>m p. Map_set m (fst p) (snd p)) (map_priv q) (set_entries ops)"
proof (induction ops arbitrary: q)
  case Nil
  then show ?case by simp
next
  case (Cons x ops)
  obtain now y where x: "x = (now, y)"
    by (cases x) auto
  have y: "y \<noteq> FClear" and rest: "FClear \<notin> snd ` set ops"
    using Cons.prems x by auto
  show ?case
    using Cons.IH [OF rest, of "QuickLRU_step now y q"] map_priv_step [OF y, of now q] x
    by (cases y) simp_all
qed


subsection \<open>The state a notification is made in\<close>

lemma delete_result:
  "fst (LRUBase_delete key s) = (Map_has (oldCache s) key \<or> Map_has (cache s) key)"
  by (simp add: LRUBase_delete_def Let_def)

lemma calls_set_priv:
  "snd (LRUBase_set_priv key item s)
     = (if maxSize s \<le> size_priv s + 1
        then LRUBase_emitEvictions (s\<lparr>cache := Map_set (cache s) key item, size_priv := 0\<rparr>)
               (oldCache s)
        else [])"
  by (simp add: LRUBase_set_priv_def Let_def)

lemma snapshot_emitEvictions:
  "c \<in> set (LRUBase_emitEvictions s m) \<Longrightarrow> snd (snd c) = s \<and> Map_has m (fst c)"
  by (force simp: LRUBase_emitEvictions_def Map_has_iff split: if_splits)

lemma snapshot_deleteIfExpired:
  "c \<in> set (snd (snd (LRUBase_deleteIfExpired now key item s))) \<Longrightarrow>
   c = (key, item_value item, s) \<and> is_expired now item"
  by (simp add: deleteIfExpired_calls split: if_splits)

lemma snapshot_getItemValue:
  "c \<in> set (snd (snd (LRUBase_getItemValue now key item s))) \<Longrightarrow>
   c = (key, item_value item, s) \<and> is_expired now item"
  using snapshot_deleteIfExpired [of c now key item s]
  by (simp add: LRUBase_getItemValue_def LRUBase_getOrDeleteIfExpired_def case_prod_beta
        split: if_splits)

lemma snapshot_has:
  assumes "c \<in> set (snd (snd (LRUBase_has now key s)))"
  shows "snd (snd c) = s \<and> fst c = key \<and> (Map_has (cache s) key \<or> Map_has (oldCache s) key)"
proof (cases "Map_has (cache s) key")
  case True
  then show ?thesis
    using assms
    by (auto simp: LRUBase_has_def case_prod_beta split: option.splits
          dest: snapshot_deleteIfExpired)
next
  case False
  then show ?thesis
    using assms
    by (auto simp: LRUBase_has_def case_prod_beta split: option.splits if_splits
          dest: snapshot_deleteIfExpired)
qed

lemma snapshot_peek:
  assumes "c \<in> set (snd (snd (LRUBase_peek now key s)))"
  shows "snd (snd c) = s \<and> fst c = key \<and> (Map_has (cache s) key \<or> Map_has (oldCache s) key)"
proof (cases "Map_has (cache s) key")
  case True
  then show ?thesis
    using assms
    by (auto simp: LRUBase_peek_def LRUBase_peek_priv_def split: option.splits
          dest: snapshot_getItemValue)
next
  case False
  then show ?thesis
    using assms
    by (auto simp: LRUBase_peek_def LRUBase_peek_priv_def Map_has_def Map_get_def
          split: option.splits if_splits dest: snapshot_getItemValue)
qed

lemma snapshot_set:
  assumes "c \<in> set (snd (LRUBase_set now key v a s))"
  shows "size_priv (snd (snd c)) = 0 \<and> oldCache (snd (snd c)) = oldCache s
       \<and> Map_has (oldCache s) (fst c) \<and> Map_has (cache (snd (snd c))) key
       \<and> maxSize s \<le> size_priv s + 1"
proof -
  obtain item where "c \<in> set (snd (LRUBase_set_priv key item s))"
    using assms by (auto simp: LRUBase_set_def Let_def split: if_splits)
  then have m: "maxSize s \<le> size_priv s + 1"
    and "c \<in> set (LRUBase_emitEvictions
                     (s\<lparr>cache := Map_set (cache s) key item, size_priv := 0\<rparr>) (oldCache s))"
    by (simp_all add: calls_set_priv split: if_splits)
  then have "snd (snd c) = s\<lparr>cache := Map_set (cache s) key item, size_priv := 0\<rparr>"
    and "Map_has (oldCache s) (fst c)"
    using snapshot_emitEvictions by blast+
  then show ?thesis
    using m by (simp add: Map_has_def map_of_Map_set)
qed

lemma snapshot_get:
  assumes "c \<in> set (snd (snd (LRUBase_get now key s)))"
  shows "(snd (snd c) = s \<and> fst c = key \<and> (Map_has (cache s) key \<or> Map_has (oldCache s) key))
       \<or> (size_priv (snd (snd c)) = 0
          \<and> oldCache (snd (snd c)) = Map_delete (oldCache s) key
          \<and> Map_has (oldCache (snd (snd c))) (fst c) \<and> Map_has (cache (snd (snd c))) key)"
proof (cases "Map_has (cache s) key")
  case True
  then show ?thesis
    using assms
    by (auto simp: LRUBase_get_def split: option.splits dest: snapshot_getItemValue)
next
  case False
  show ?thesis
  proof (cases "Map_get (oldCache s) key")
    case None
    then show ?thesis
      using assms False by (simp add: LRUBase_get_def split: if_splits)
  next
    case (Some item)
    then have old: "Map_has (oldCache s) key"
      by (simp add: Map_has_def Map_get_def)
    show ?thesis
    proof (cases "is_expired now item")
      case True
      then show ?thesis
        using assms False Some old snapshot_deleteIfExpired [of c now key item s]
        by (simp add: LRUBase_get_def case_prod_beta deleteIfExpired_result delete_result)
    next
      case fresh: False
      let ?s1 = "s\<lparr>oldCache := Map_delete (oldCache s) key\<rparr>"
      have "c \<in> set (snd (LRUBase_set_priv key item ?s1))"
        using assms False Some old fresh
        by (simp add: LRUBase_get_def deleteIfExpired_fresh LRUBase_moveToRecent_def
              case_prod_beta)
      then have "c \<in> set (LRUBase_emitEvictions
                     (?s1\<lparr>cache := Map_set (cache ?s1) key item, size_priv := 0\<rparr>)
                     (oldCache ?s1))"
        by (simp add: calls_set_priv split: if_splits)
      then have "snd (snd c) = ?s1\<lparr>cache := Map_set (cache ?s1) key item, size_priv := 0\<rparr>"
        and "Map_has (oldCache ?s1) (fst c)"
        using snapshot_emitEvictions by blast+
      then show ?thesis
        by (simp add: Map_has_def map_of_Map_set)
    qed
  qed
qed


lemma oldCache_delete: "oldCache (snd (LRUBase_delete key s)) = Map_delete (oldCache s) key"
  by (simp add: LRUBase_delete_def Let_def)

lemma cache_delete: "cache (snd (LRUBase_delete key s)) = Map_delete (cache s) key"
  by (simp add: LRUBase_delete_def Let_def)

lemma distinct_keys_tail:
  "q \<in> set rest \<Longrightarrow> distinct (map fst (p # rest)) \<Longrightarrow> fst q \<noteq> fst p"
  by (metis distinct.simps(2) image_eqI list.simps(9) set_map)

lemma present_ascending_old:
  assumes "distinct (map fst xs)" and "\<forall>p \<in> set xs. Map_has (oldCache s) (fst p)"
    and "c \<in> set (snd (snd (ascending_old now xs s)))"
  shows "Map_has (oldCache (snd (snd c))) (fst c)"
  using assms
proof (induction xs arbitrary: s)
  case Nil
  then show ?case by simp
next
  case (Cons p rest)
  let ?r = "LRUBase_deleteIfExpired now (fst p) (snd p) s"
  have rest: "\<forall>q \<in> set rest. Map_has (oldCache (fst (snd ?r))) (fst q)"
  proof
    fix q
    assume q: "q \<in> set rest"
    then have "fst q \<noteq> fst p"
      using Cons.prems(1) by (rule distinct_keys_tail)
    moreover have "Map_has (oldCache s) (fst q)"
      using q Cons.prems(2) by simp
    ultimately show "Map_has (oldCache (fst (snd ?r))) (fst q)"
      by (simp add: deleteIfExpired_state oldCache_delete Map_has_Map_delete)
  qed
  show ?case
  proof (cases "Map_has (cache s) (fst p)")
    case True
    then have "c \<in> set (snd (snd (ascending_old now rest s)))"
      using Cons.prems(3) by simp
    then show ?thesis
      using Cons.IH [of s] Cons.prems(1,2) by simp
  next
    case False
    then have "c \<in> set (snd (snd ?r)) \<or> c \<in> set (snd (snd (ascending_old now rest (fst (snd ?r)))))"
      using Cons.prems(3) by (simp add: case_prod_beta)
    then show ?thesis
    proof
      assume "c \<in> set (snd (snd ?r))"
      then have "c = (fst p, item_value (snd p), s)"
        using snapshot_deleteIfExpired [of c now "fst p" "snd p" s] by simp
      then show ?thesis
        using Cons.prems(2) by simp
    next
      assume "c \<in> set (snd (snd (ascending_old now rest (fst (snd ?r)))))"
      then show ?thesis
        using Cons.IH [of "fst (snd ?r)"] Cons.prems(1) rest by simp
    qed
  qed
qed

lemma present_ascending_cache:
  assumes "distinct (map fst xs)" and "\<forall>p \<in> set xs. Map_has (cache s) (fst p)"
    and "c \<in> set (snd (snd (ascending_cache now xs s)))"
  shows "Map_has (cache (snd (snd c))) (fst c)"
  using assms
proof (induction xs arbitrary: s)
  case Nil
  then show ?case by simp
next
  case (Cons p rest)
  let ?r = "LRUBase_deleteIfExpired now (fst p) (snd p) s"
  have rest: "\<forall>q \<in> set rest. Map_has (cache (fst (snd ?r))) (fst q)"
  proof
    fix q
    assume q: "q \<in> set rest"
    then have "fst q \<noteq> fst p"
      using Cons.prems(1) by (rule distinct_keys_tail)
    moreover have "Map_has (cache s) (fst q)"
      using q Cons.prems(2) by simp
    ultimately show "Map_has (cache (fst (snd ?r))) (fst q)"
      by (simp add: deleteIfExpired_state cache_delete Map_has_Map_delete)
  qed
  have "c \<in> set (snd (snd ?r)) \<or> c \<in> set (snd (snd (ascending_cache now rest (fst (snd ?r)))))"
    using Cons.prems(3) by (simp add: case_prod_beta)
  then show ?case
  proof
    assume "c \<in> set (snd (snd ?r))"
    then have "c = (fst p, item_value (snd p), s)"
      using snapshot_deleteIfExpired [of c now "fst p" "snd p" s] by simp
    then show ?thesis
      using Cons.prems(2) by simp
  next
    assume "c \<in> set (snd (snd (ascending_cache now rest (fst (snd ?r)))))"
    then show ?thesis
      using Cons.IH [of "fst (snd ?r)"] Cons.prems(1) rest by simp
  qed
qed

lemma present_entriesAscending_priv:
  assumes "LRUBase_inv s" and "c \<in> set (snd (snd (LRUBase_entriesAscending_priv now s)))"
  shows "Map_has (cache (snd (snd c))) (fst c) \<or> Map_has (oldCache (snd (snd c))) (fst c)"
proof -
  let ?r1 = "ascending_old now (oldCache s) s"
  let ?s1 = "fst (snd ?r1)"
  let ?r2 = "ascending_cache now (cache ?s1) ?s1"
  have "c \<in> set (snd (snd ?r1)) \<or> c \<in> set (snd (snd ?r2))"
    using assms(2) by (simp add: LRUBase_entriesAscending_priv_def case_prod_beta)
  moreover have "Map_has (oldCache (snd (snd c))) (fst c)" if "c \<in> set (snd (snd ?r1))"
    using present_ascending_old [of "oldCache s" s c now] assms(1) that
    by (simp add: LRUBase_inv_def Map_has_iff)
  moreover have "Map_has (cache (snd (snd c))) (fst c)" if "c \<in> set (snd (snd ?r2))"
    using present_ascending_cache [of "cache ?s1" ?s1 c now] assms(1) that
    by (simp add: cache_ascending_old LRUBase_inv_def Map_has_iff)
  ultimately show ?thesis
    by blast
qed

lemma calls_resize:
  assumes "LRUBase_resize now n s = Inr (s', cs)"
  shows "\<exists>c2. cs = snd (snd (LRUBase_entriesAscending_priv now s)) @ c2
            \<and> (\<forall>c \<in> set c2. snd (snd c) = fst (snd (LRUBase_entriesAscending_priv now s)))"
proof -
  let ?r = "LRUBase_entriesAscending_priv now s"
  let ?k = "nat (int (length (fst ?r)) - n)"
  have "cs = snd (snd ?r) \<or> cs = snd (snd ?r) @ LRUBase_emitEvictions (fst (snd ?r))
                                   (Map_new (take ?k (fst ?r)))"
    using assms by (auto simp: LRUBase_resize_def case_prod_beta Let_def split: if_splits)
  then show ?thesis
  proof
    assume "cs = snd (snd ?r)"
    then have "cs = snd (snd ?r) @ [] \<and> (\<forall>c \<in> set []. snd (snd c) = fst (snd ?r))"
      by simp
    then show ?thesis
      by blast
  next
    assume "cs = snd (snd ?r) @ LRUBase_emitEvictions (fst (snd ?r)) (Map_new (take ?k (fst ?r)))"
    then show ?thesis
      using snapshot_emitEvictions by blast
  qed
qed



subsection \<open>What an operation does to the entry of a key\<close>

lemma only_forgets_refl: "only_forgets s s"
  by (simp add: only_forgets_def)

lemma only_forgets_trans: "only_forgets s s1 \<Longrightarrow> only_forgets s1 s2 \<Longrightarrow> only_forgets s s2"
  unfolding only_forgets_def by metis

lemma lookup_delete:
  "LRUBase_lookup (snd (LRUBase_delete key s)) k
     = (if k = key then None else LRUBase_lookup s k)"
  by (simp add: LRUBase_lookup_def cache_delete oldCache_delete Map_get_def map_of_Map_delete
        split: option.splits)

lemma only_forgets_delete: "only_forgets s (snd (LRUBase_delete key s))"
  by (simp add: only_forgets_def lookup_delete)

lemma only_forgets_deleteIfExpired:
  "only_forgets s (fst (snd (LRUBase_deleteIfExpired now key item s)))"
  by (simp add: deleteIfExpired_state only_forgets_delete only_forgets_refl)

lemma lookup_set_priv_same:
  "LRUBase_lookup (fst (LRUBase_set_priv key item s)) key = Some item"
  by (simp add: LRUBase_set_priv_def LRUBase_lookup_def Let_def Map_get_def map_of_Map_set)

lemma lookup_set_priv_other:
  "k \<noteq> key \<Longrightarrow>
   LRUBase_lookup (fst (LRUBase_set_priv key item s)) k = None
   \<or> LRUBase_lookup (fst (LRUBase_set_priv key item s)) k = LRUBase_lookup s k"
  by (auto simp: LRUBase_set_priv_def LRUBase_lookup_def Let_def Map_get_def map_of_Map_set
        split: option.splits)

lemma only_forgets_moveToRecent:
  assumes "\<not> Map_has (cache s) key" and "Map_get (oldCache s) key = Some item"
  shows "only_forgets s (fst (LRUBase_moveToRecent key item s))"
proof -
  let ?s1 = "s\<lparr>oldCache := Map_delete (oldCache s) key\<rparr>"
  have other: "LRUBase_lookup ?s1 k = LRUBase_lookup s k" if "k \<noteq> key" for k
    using that
    by (simp add: LRUBase_lookup_def Map_get_def map_of_Map_delete split: option.splits)
  have same: "LRUBase_lookup s key = Some item"
    using assms by (simp add: LRUBase_lookup_def Map_get_def Map_has_def)
  show ?thesis
    unfolding only_forgets_def LRUBase_moveToRecent_def
  proof
    fix k
    show "LRUBase_lookup (fst (LRUBase_set_priv key item ?s1)) k = None
        \<or> LRUBase_lookup (fst (LRUBase_set_priv key item ?s1)) k = LRUBase_lookup s k"
    proof (cases "k = key")
      case True
      then show ?thesis
        using same by (simp add: lookup_set_priv_same)
    next
      case False
      then show ?thesis
        using lookup_set_priv_other [of k key item ?s1] other by auto
    qed
  qed
qed

lemma only_forgets_getItemValue:
  "only_forgets s (fst (snd (LRUBase_getItemValue now key item s)))"
  using only_forgets_deleteIfExpired [of s now key item]
  by (simp add: LRUBase_getItemValue_def LRUBase_getOrDeleteIfExpired_def case_prod_beta
        only_forgets_refl)

lemma only_forgets_has: "only_forgets s (fst (snd (LRUBase_has now key s)))"
  by (simp add: LRUBase_has_def case_prod_beta only_forgets_deleteIfExpired only_forgets_refl
        split: option.splits)

lemma only_forgets_peek: "only_forgets s (fst (snd (LRUBase_peek now key s)))"
  by (simp add: LRUBase_peek_def LRUBase_peek_priv_def only_forgets_getItemValue
        only_forgets_refl split: option.splits)

lemma only_forgets_clear: "only_forgets s (LRUBase_clear s)"
  by (simp add: only_forgets_def LRUBase_clear_def LRUBase_lookup_def Map_get_def)

lemma only_forgets_get: "only_forgets s (fst (snd (LRUBase_get now key s)))"
proof (cases "Map_has (cache s) key")
  case True
  then show ?thesis
    by (simp add: LRUBase_get_def only_forgets_getItemValue only_forgets_refl
          split: option.splits)
next
  case False
  show ?thesis
  proof (cases "Map_get (oldCache s) key")
    case None
    then show ?thesis
      using False by (simp add: LRUBase_get_def only_forgets_refl)
  next
    case (Some item)
    show ?thesis
    proof (cases "is_expired now item")
      case True
      then show ?thesis
        using False Some only_forgets_deleteIfExpired [of s now key item]
        by (simp add: LRUBase_get_def case_prod_beta only_forgets_refl
              deleteIfExpired_result delete_result Map_has_def Map_get_def)
    next
      case fresh: False
      then show ?thesis
        using False Some only_forgets_moveToRecent [of s key item]
        by (simp add: LRUBase_get_def deleteIfExpired_fresh only_forgets_refl)
    qed
  qed
qed

lemma only_forgets_ascending_old: "only_forgets s (fst (snd (ascending_old now xs s)))"
proof (induction xs arbitrary: s)
  case Nil
  then show ?case by (simp add: only_forgets_refl)
next
  case (Cons p rest)
  let ?s1 = "fst (snd (LRUBase_deleteIfExpired now (fst p) (snd p) s))"
  have "only_forgets s (fst (snd (ascending_old now rest ?s1)))"
    using only_forgets_deleteIfExpired [of s now "fst p" "snd p"] Cons.IH [of ?s1]
    by (rule only_forgets_trans)
  then show ?case
    using Cons.IH [of s] by (simp add: case_prod_beta)
qed

lemma only_forgets_ascending_cache: "only_forgets s (fst (snd (ascending_cache now xs s)))"
proof (induction xs arbitrary: s)
  case Nil
  then show ?case by (simp add: only_forgets_refl)
next
  case (Cons p rest)
  let ?s1 = "fst (snd (LRUBase_deleteIfExpired now (fst p) (snd p) s))"
  have "only_forgets s (fst (snd (ascending_cache now rest ?s1)))"
    using only_forgets_deleteIfExpired [of s now "fst p" "snd p"] Cons.IH [of ?s1]
    by (rule only_forgets_trans)
  then show ?case
    by (simp add: case_prod_beta)
qed

lemma only_forgets_descending_old: "only_forgets s (fst (snd (descending_old now xs s)))"
proof (induction xs arbitrary: s)
  case Nil
  then show ?case by (simp add: only_forgets_refl)
next
  case (Cons p rest)
  let ?s1 = "fst (snd (LRUBase_deleteIfExpired now (fst p) (snd p) s))"
  have "only_forgets s (fst (snd (descending_old now rest ?s1)))"
    using only_forgets_deleteIfExpired [of s now "fst p" "snd p"] Cons.IH [of ?s1]
    by (rule only_forgets_trans)
  then show ?case
    using Cons.IH [of s] by (simp add: case_prod_beta)
qed

lemma only_forgets_descending_cache: "only_forgets s (fst (snd (descending_cache now xs s)))"
proof (induction xs arbitrary: s)
  case Nil
  then show ?case by (simp add: only_forgets_refl)
next
  case (Cons p rest)
  let ?s1 = "fst (snd (LRUBase_deleteIfExpired now (fst p) (snd p) s))"
  have "only_forgets s (fst (snd (descending_cache now rest ?s1)))"
    using only_forgets_deleteIfExpired [of s now "fst p" "snd p"] Cons.IH [of ?s1]
    by (rule only_forgets_trans)
  then show ?case
    by (simp add: case_prod_beta)
qed

lemma only_forgets_entriesAscending_priv:
  "only_forgets s (fst (snd (LRUBase_entriesAscending_priv now s)))"
  using only_forgets_trans [OF only_forgets_ascending_old only_forgets_ascending_cache]
  by (simp add: LRUBase_entriesAscending_priv_def case_prod_beta)

lemma only_forgets_entriesAscending:
  "only_forgets s (fst (snd (LRUBase_entriesAscending now s)))"
  by (simp add: LRUBase_entriesAscending_def case_prod_beta only_forgets_entriesAscending_priv)

lemma only_forgets_entriesDescending:
  "only_forgets s (fst (snd (LRUBase_entriesDescending now s)))"
  using only_forgets_trans [OF only_forgets_descending_cache only_forgets_descending_old]
  by (simp add: LRUBase_entriesDescending_def case_prod_beta)


lemma items_entriesAscending_priv:
  "set (fst (LRUBase_entriesAscending_priv now s))
     \<subseteq> {p \<in> set (oldCache s). \<not> Map_has (cache s) (fst p)} \<union> set (cache s)"
  using items_ascending_old [of now "oldCache s" s]
    items_ascending_cache [of now "cache s" "fst (snd (ascending_old now (oldCache s) s))"]
  by (auto simp: LRUBase_entriesAscending_priv_def case_prod_beta cache_ascending_old)

lemma lookup_of_walked_item:
  assumes "LRUBase_inv s" and "(k, it) \<in> set (fst (LRUBase_entriesAscending_priv now s))"
  shows "LRUBase_lookup s k = Some it"
proof -
  have "(k, it) \<in> set (cache s) \<or> ((k, it) \<in> set (oldCache s) \<and> \<not> Map_has (cache s) k)"
    using assms(2) items_entriesAscending_priv [of now s] by auto
  then show ?thesis
  proof
    assume "(k, it) \<in> set (cache s)"
    then have "map_of (cache s) k = Some it"
      using assms(1) by (simp add: LRUBase_inv_def)
    then show ?thesis
      by (simp add: LRUBase_lookup_def Map_get_def)
  next
    assume a: "(k, it) \<in> set (oldCache s) \<and> \<not> Map_has (cache s) k"
    then have "map_of (oldCache s) k = Some it"
      using assms(1) by (simp add: LRUBase_inv_def)
    then show ?thesis
      using a by (simp add: LRUBase_lookup_def Map_get_def Map_has_def)
  qed
qed

lemma only_forgets_resize:
  assumes "LRUBase_inv s" and "LRUBase_resize now n s = Inr (s', cs)"
  shows "only_forgets s s'"
proof -
  let ?r = "LRUBase_entriesAscending_priv now s"
  let ?items = "fst ?r"
  let ?k = "nat (int (length ?items) - n)"
  have d: "distinct (map fst ?items)"
    using assms(1) by (rule distinct_entriesAscending_priv)
  have dd: "distinct (map fst (drop ?k ?items))"
    using d by (simp add: drop_map [symmetric])
  have shape: "(cache s' = ?items \<and> oldCache s' = []) \<or> (cache s' = [] \<and> oldCache s' = drop ?k ?items)"
    using assms(2) d dd
    by (auto simp: LRUBase_resize_def case_prod_beta Let_def Map_new_distinct split: if_splits)
  have "LRUBase_lookup s' key = None \<or> LRUBase_lookup s' key = LRUBase_lookup s key" for key
  proof (cases "LRUBase_lookup s' key")
    case None
    then show ?thesis by simp
  next
    case (Some it)
    then have "map_of ?items key = Some it \<or> map_of (drop ?k ?items) key = Some it"
      using shape by (auto simp: LRUBase_lookup_def Map_get_def split: option.splits)
    then have "(key, it) \<in> set ?items"
      by (auto dest: map_of_SomeD in_set_dropD)
    then have "LRUBase_lookup s key = Some it"
      using assms(1) by (rule lookup_of_walked_item [rotated])
    then show ?thesis
      using Some by simp
  qed
  then show ?thesis
    by (simp add: only_forgets_def)
qed

lemma lookup_set_same:
  "LRUBase_lookup (fst (LRUBase_set now key v a s)) key
     = Some \<lparr>item_value = v, expiry = set_expiry now a s\<rparr>"
proof (cases "Map_has (cache s) key")
  case True
  then show ?thesis
    by (simp add: LRUBase_set_def set_expiry_def Let_def LRUBase_lookup_def Map_get_def
          map_of_Map_set)
next
  case False
  then show ?thesis
    using lookup_set_priv_same [of key "\<lparr>item_value = v, expiry = set_expiry now a s\<rparr>" s]
    by (simp add: LRUBase_set_def set_expiry_def Let_def)
qed

lemma lookup_set_other:
  assumes "k \<noteq> key"
  shows "LRUBase_lookup (fst (LRUBase_set now key v a s)) k = None
       \<or> LRUBase_lookup (fst (LRUBase_set now key v a s)) k = LRUBase_lookup s k"
proof (cases "Map_has (cache s) key")
  case True
  then have "LRUBase_lookup (fst (LRUBase_set now key v a s)) k = LRUBase_lookup s k"
    using assms
    by (simp add: LRUBase_set_def Let_def LRUBase_lookup_def Map_get_def map_of_Map_set
          split: option.splits)
  then show ?thesis
    by simp
next
  case False
  then show ?thesis
    using assms lookup_set_priv_other [of k key "\<lparr>item_value = v, expiry = set_expiry now a s\<rparr>" s]
    by (simp add: LRUBase_set_def set_expiry_def Let_def)
qed

lemma lookup_step:
  assumes "LRUBase_inv s" and "\<not> sets_key key x"
  shows "LRUBase_lookup (LRUBase_step now x s) key = None
       \<or> LRUBase_lookup (LRUBase_step now x s) key = LRUBase_lookup s key"
proof (cases x)
  case (OpSet k v a)
  then have "key \<noteq> k"
    using assms(2) by (auto simp: sets_key_def)
  then show ?thesis
    using OpSet lookup_set_other [of key k now v a s] by simp
next
  case (OpResize n)
  show ?thesis
  proof (cases "LRUBase_resize now n s")
    case (Inl e)
    then show ?thesis
      using OpResize by simp
  next
    case (Inr r)
    then have "only_forgets s (fst r)"
      using only_forgets_resize [OF assms(1), of now n "fst r" "snd r"] by simp
    then show ?thesis
      using OpResize Inr by (simp add: only_forgets_def)
  qed
next
  case (OpGet k)
  then show ?thesis
    using only_forgets_get [of s now k] by (simp add: only_forgets_def)
next
  case (OpHas k)
  then show ?thesis
    using only_forgets_has [of s now k] by (simp add: only_forgets_def)
next
  case (OpPeek k)
  then show ?thesis
    using only_forgets_peek [of s now k] by (simp add: only_forgets_def)
next
  case (OpDelete k)
  then show ?thesis
    using only_forgets_delete [of s k] by (simp add: only_forgets_def)
next
  case OpClear
  then show ?thesis
    using only_forgets_clear [of s] by (simp add: only_forgets_def)
next
  case OpEntriesAscending
  then show ?thesis
    using only_forgets_entriesAscending [of s now] by (simp add: only_forgets_def)
next
  case OpEntriesDescending
  then show ?thesis
    using only_forgets_entriesDescending [of s now] by (simp add: only_forgets_def)
qed

lemma lookup_run:
  assumes "LRUBase_inv s" and "list_all (\<lambda>x. \<not> sets_key key (snd x)) ops"
  shows "LRUBase_lookup (LRUBase_run ops s) key = None
       \<or> LRUBase_lookup (LRUBase_run ops s) key = LRUBase_lookup s key"
  using assms
proof (induction ops arbitrary: s)
  case Nil
  then show ?case by simp
next
  case (Cons x ops)
  let ?s1 = "LRUBase_step (fst x) (snd x) s"
  have "LRUBase_inv ?s1"
    using Cons.prems(1) by (rule inv_step)
  then have "LRUBase_lookup (LRUBase_run ops ?s1) key = None
           \<or> LRUBase_lookup (LRUBase_run ops ?s1) key = LRUBase_lookup ?s1 key"
    using Cons.IH [of ?s1] Cons.prems(2) by simp
  moreover have "LRUBase_lookup ?s1 key = None \<or> LRUBase_lookup ?s1 key = LRUBase_lookup s key"
    using lookup_step [of s key "snd x" "fst x"] Cons.prems by simp
  ultimately show ?case
    by auto
qed

subsection \<open>Reading through the lookup\<close>

lemma lookup_present: "LRUBase_lookup s key \<noteq> None \<longleftrightarrow> Map_has (cache s) key \<or> Map_has (oldCache s) key"
  by (simp add: LRUBase_lookup_def Map_get_def Map_has_def split: option.splits)

lemma get_absent: "LRUBase_lookup s key = None \<Longrightarrow> LRUBase_get t key s = (None, s, [])"
  by (simp add: LRUBase_lookup_def LRUBase_get_def Map_get_def Map_has_def split: option.splits)

lemma get_fresh:
  assumes "LRUBase_lookup s key = Some item" and "\<not> is_expired t item"
  shows "fst (LRUBase_get t key s) = Some (item_value item)"
proof (cases "Map_has (cache s) key")
  case True
  then have "Map_get (cache s) key = Some item"
    using assms(1) by (auto simp: LRUBase_lookup_def Map_has_def Map_get_def split: option.splits)
  then show ?thesis
    using True assms(2)
    by (simp add: LRUBase_get_def LRUBase_getItemValue_def LRUBase_getOrDeleteIfExpired_def
          deleteIfExpired_fresh)
next
  case False
  then have "Map_get (oldCache s) key = Some item"
    using assms(1) by (auto simp: LRUBase_lookup_def Map_has_def Map_get_def split: option.splits)
  then show ?thesis
    using False assms(2)
    by (simp add: LRUBase_get_def deleteIfExpired_fresh case_prod_beta Map_has_def Map_get_def)
qed

lemma get_value:
  assumes "LRUBase_lookup s key = Some item"
  shows "fst (LRUBase_get t key s) = None \<or> fst (LRUBase_get t key s) = Some (item_value item)"
proof (cases "Map_has (cache s) key")
  case True
  then have "Map_get (cache s) key = Some item"
    using assms(1) by (auto simp: LRUBase_lookup_def Map_has_def Map_get_def split: option.splits)
  then show ?thesis
    using True
    by (simp add: LRUBase_get_def LRUBase_getItemValue_def LRUBase_getOrDeleteIfExpired_def
          case_prod_beta)
next
  case False
  then have "Map_get (oldCache s) key = Some item"
    using assms(1) by (auto simp: LRUBase_lookup_def Map_has_def Map_get_def split: option.splits)
  then show ?thesis
    using False by (simp add: LRUBase_get_def case_prod_beta)
qed



subsection \<open>Expiry times under the documented contract\<close>

lemma maxAge_delete: "maxAge (snd (LRUBase_delete key s)) = maxAge s"
  by (simp add: LRUBase_delete_def Let_def)

lemma maxAge_deleteIfExpired:
  "maxAge (fst (snd (LRUBase_deleteIfExpired now key item s))) = maxAge s"
  by (simp add: deleteIfExpired_state maxAge_delete)

lemma maxAge_set_priv: "maxAge (fst (LRUBase_set_priv key item s)) = maxAge s"
  by (simp add: LRUBase_set_priv_def Let_def)

lemma maxAge_getItemValue:
  "maxAge (fst (snd (LRUBase_getItemValue now key item s))) = maxAge s"
  by (simp add: LRUBase_getItemValue_def LRUBase_getOrDeleteIfExpired_def case_prod_beta
        maxAge_deleteIfExpired)

lemma maxAge_get: "maxAge (fst (snd (LRUBase_get now key s))) = maxAge s"
  by (simp add: LRUBase_get_def LRUBase_moveToRecent_def case_prod_beta maxAge_getItemValue
        maxAge_deleteIfExpired maxAge_set_priv split: option.splits)

lemma maxAge_set: "maxAge (fst (LRUBase_set now key v a s)) = maxAge s"
  by (simp add: LRUBase_set_def Let_def maxAge_set_priv)

lemma maxAge_has: "maxAge (fst (snd (LRUBase_has now key s))) = maxAge s"
  by (simp add: LRUBase_has_def case_prod_beta maxAge_deleteIfExpired split: option.splits)

lemma maxAge_peek: "maxAge (fst (snd (LRUBase_peek now key s))) = maxAge s"
  by (simp add: LRUBase_peek_def LRUBase_peek_priv_def maxAge_getItemValue split: option.splits)

lemma maxAge_ascending_old: "maxAge (fst (snd (ascending_old now xs s))) = maxAge s"
  by (induction xs arbitrary: s) (simp_all add: case_prod_beta maxAge_deleteIfExpired)

lemma maxAge_ascending_cache: "maxAge (fst (snd (ascending_cache now xs s))) = maxAge s"
  by (induction xs arbitrary: s) (simp_all add: case_prod_beta maxAge_deleteIfExpired)

lemma maxAge_descending_old: "maxAge (fst (snd (descending_old now xs s))) = maxAge s"
  by (induction xs arbitrary: s) (simp_all add: case_prod_beta maxAge_deleteIfExpired)

lemma maxAge_descending_cache: "maxAge (fst (snd (descending_cache now xs s))) = maxAge s"
  by (induction xs arbitrary: s) (simp_all add: case_prod_beta maxAge_deleteIfExpired)

lemma maxAge_entriesAscending_priv:
  "maxAge (fst (snd (LRUBase_entriesAscending_priv now s))) = maxAge s"
  by (simp add: LRUBase_entriesAscending_priv_def case_prod_beta maxAge_ascending_old
        maxAge_ascending_cache)

lemma maxAge_resize: "LRUBase_resize now n s = Inr r \<Longrightarrow> maxAge (fst r) = maxAge s"
  using maxAge_entriesAscending_priv [of now s]
  by (auto simp: LRUBase_resize_def case_prod_beta Let_def split: if_splits)

lemma maxAge_step: "maxAge (LRUBase_step now x s) = maxAge s"
proof (cases x)
  case (OpResize n)
  then show ?thesis
    using maxAge_resize [of now n s] by (simp split: sum.splits)
qed (simp_all add: maxAge_get maxAge_set maxAge_has maxAge_peek maxAge_delete
       LRUBase_clear_def LRUBase_entriesAscending_def LRUBase_entriesDescending_def
       case_prod_beta maxAge_entriesAscending_priv maxAge_descending_old
       maxAge_descending_cache)

lemma positive_new:
  assumes "LRUBase_new options = Inr s" and "valid_maxAge (opt_maxAge options)"
  shows "positive_expiries s"
proof -
  have "cache s = []" and "oldCache s = []"
    using assms(1) by (auto simp: LRUBase_new_def split: if_splits)
  moreover have "case maxAge s of Num d \<Rightarrow> 0 < d | POSITIVE_INFINITY \<Rightarrow> True"
    using assms by (auto simp: LRUBase_new_def valid_maxAge_def split: if_splits option.splits jsnum.splits)
  ultimately show ?thesis
    by (simp add: positive_expiries_def LRUBase_lookup_def Map_get_def)
qed

lemma set_expiry_positive:
  assumes "positive_expiries s" and "0 \<le> now" and "valid_maxAge a"
    and "set_expiry now a s = Some e"
  shows "0 < e"
proof -
  obtain d where d: "(case a of None \<Rightarrow> maxAge s | Some m \<Rightarrow> m) = Num d" and e: "e = now + d"
    using assms(4) by (auto simp: set_expiry_def split: jsnum.splits)
  have "0 < d"
    using assms(1,3) d
    by (auto simp: positive_expiries_def valid_maxAge_def split: option.splits jsnum.splits)
  then show ?thesis
    using assms(2) e by simp
qed

lemma positive_step:
  assumes "LRUBase_inv s" and "positive_expiries s" and "valid_operation (now, x)"
  shows "positive_expiries (LRUBase_step now x s)"
proof -
  let ?s' = "LRUBase_step now x s"
  have "0 < e" if l: "LRUBase_lookup ?s' key = Some item" and ex: "expiry item = Some e"
    for key item e
  proof (cases "sets_key key x")
    case True
    then obtain v a where x: "x = OpSet key v a"
      by (auto simp: sets_key_def split: operation.splits)
    then have "item = \<lparr>item_value = v, expiry = set_expiry now a s\<rparr>"
      using l lookup_set_same [of now key v a s] by simp
    then have "set_expiry now a s = Some e"
      using ex by simp
    moreover have "0 \<le> now" and "valid_maxAge a"
      using assms(3) x by (simp_all add: valid_operation_def)
    ultimately show ?thesis
      using assms(2) set_expiry_positive by blast
  next
    case False
    then have "LRUBase_lookup s key = Some item"
      using lookup_step [OF assms(1) False, of now] l by auto
    then show ?thesis
      using assms(2) ex by (auto simp: positive_expiries_def)
  qed
  then have "\<forall>key item e. LRUBase_lookup ?s' key = Some item \<and> expiry item = Some e \<longrightarrow> 0 < e"
    by blast
  then show ?thesis
    using assms(2) by (simp add: positive_expiries_def maxAge_step)
qed

lemma positive_run:
  assumes "LRUBase_inv s" and "positive_expiries s" and "list_all valid_operation ops"
  shows "positive_expiries (LRUBase_run ops s)"
  using assms
proof (induction ops arbitrary: s)
  case Nil
  then show ?case by simp
next
  case (Cons x ops)
  have "LRUBase_inv (LRUBase_step (fst x) (snd x) s)"
    using Cons.prems(1) by (rule inv_step)
  moreover have "positive_expiries (LRUBase_step (fst x) (snd x) s)"
    using positive_step [of s "fst x" "snd x"] Cons.prems by simp
  ultimately show ?case
    using Cons.IH Cons.prems(3) by simp
qed

subsection \<open>Reading an entry that has an expiry time\<close>

lemma expired_read:
  assumes "LRUBase_lookup s key = Some item" and "expiry item = Some e" and "e \<noteq> 0"
    and "e \<le> t"
  shows "LRUBase_get t key s
           = (None, snd (LRUBase_delete key s),
              if onEviction s then [(key, item_value item, s)] else [])"
    and "LRUBase_has t key s
           = (False, snd (LRUBase_delete key s),
              if onEviction s then [(key, item_value item, s)] else [])"
    and "LRUBase_peek t key s
           = (None, snd (LRUBase_delete key s),
              if onEviction s then [(key, item_value item, s)] else [])"
proof -
  have ex: "is_expired t item" and tr: "truthy_expiry item"
    using assms(2,3,4) by (simp_all add: is_expired_def truthy_expiry_def)
  have present: "Map_has (oldCache s) key \<or> Map_has (cache s) key"
    using assms(1) lookup_present [of s key] by auto
  have del: "LRUBase_deleteIfExpired t key item s
               = (True, snd (LRUBase_delete key s),
                  if onEviction s then [(key, item_value item, s)] else [])"
    using ex present by (simp add: LRUBase_deleteIfExpired_def Let_def delete_result)
  have which: "(Map_has (cache s) key \<and> Map_get (cache s) key = Some item)
             \<or> (\<not> Map_has (cache s) key \<and> Map_has (oldCache s) key
                \<and> Map_get (oldCache s) key = Some item)"
    using assms(1)
    by (auto simp: LRUBase_lookup_def Map_has_def Map_get_def split: option.splits)
  show "LRUBase_get t key s
           = (None, snd (LRUBase_delete key s),
              if onEviction s then [(key, item_value item, s)] else [])"
    using which tr del
    by (auto simp: LRUBase_get_def LRUBase_getItemValue_def LRUBase_getOrDeleteIfExpired_def)
  show "LRUBase_has t key s
           = (False, snd (LRUBase_delete key s),
              if onEviction s then [(key, item_value item, s)] else [])"
    using which del by (auto simp: LRUBase_has_def)
  show "LRUBase_peek t key s
           = (None, snd (LRUBase_delete key s),
              if onEviction s then [(key, item_value item, s)] else [])"
    using which tr del
    by (auto simp: LRUBase_peek_def LRUBase_peek_priv_def LRUBase_getItemValue_def
          LRUBase_getOrDeleteIfExpired_def)
qed

lemma fresh_read:
  assumes "LRUBase_lookup s key = Some item" and "expiry item = Some e" and "t < e"
  shows "fst (LRUBase_get t key s) = Some (item_value item)"
    and "LRUBase_has t key s = (True, s, [])"
    and "LRUBase_peek t key s = (Some (item_value item), s, [])"
proof -
  have fr: "\<not> is_expired t item"
    using assms(2,3) by (simp add: is_expired_def)
  have which: "(Map_has (cache s) key \<and> Map_get (cache s) key = Some item)
             \<or> (\<not> Map_has (cache s) key \<and> Map_has (oldCache s) key
                \<and> Map_get (oldCache s) key = Some item)"
    using assms(1)
    by (auto simp: LRUBase_lookup_def Map_has_def Map_get_def split: option.splits)
  show "fst (LRUBase_get t key s) = Some (item_value item)"
    using assms(1) fr by (rule get_fresh)
  show "LRUBase_has t key s = (True, s, [])"
    using which fr by (auto simp: LRUBase_has_def deleteIfExpired_fresh)
  show "LRUBase_peek t key s = (Some (item_value item), s, [])"
    using which fr
    by (auto simp: LRUBase_peek_def LRUBase_peek_priv_def LRUBase_getItemValue_def
          LRUBase_getOrDeleteIfExpired_def deleteIfExpired_fresh)
qed



subsection \<open>The walks of a well-formed state in closed form\<close>

lemma deleteIfExpired_present:
  "Map_has (oldCache s) key \<or> Map_has (cache s) key \<Longrightarrow>
   fst (LRUBase_deleteIfExpired now key item s) = is_expired now item"
  by (simp add: deleteIfExpired_result delete_result)

lemma rest_present_old:
  assumes "distinct (map fst (p # rest))" and "\<forall>q \<in> set (p # rest). Map_has (oldCache s) (fst q)"
  shows "\<forall>q \<in> set rest. Map_has (oldCache (fst (snd (LRUBase_deleteIfExpired now (fst p) (snd p) s)))) (fst q)"
proof
  fix q
  assume q: "q \<in> set rest"
  then have "fst q \<noteq> fst p"
    using assms(1) by (rule distinct_keys_tail)
  moreover have "Map_has (oldCache s) (fst q)"
    using q assms(2) by simp
  ultimately show "Map_has (oldCache (fst (snd (LRUBase_deleteIfExpired now (fst p) (snd p) s)))) (fst q)"
    by (simp add: deleteIfExpired_state oldCache_delete Map_has_Map_delete)
qed

lemma rest_present_cache:
  assumes "distinct (map fst (p # rest))" and "\<forall>q \<in> set (p # rest). Map_has (cache s) (fst q)"
  shows "\<forall>q \<in> set rest. Map_has (cache (fst (snd (LRUBase_deleteIfExpired now (fst p) (snd p) s)))) (fst q)"
proof
  fix q
  assume q: "q \<in> set rest"
  then have "fst q \<noteq> fst p"
    using assms(1) by (rule distinct_keys_tail)
  moreover have "Map_has (cache s) (fst q)"
    using q assms(2) by simp
  ultimately show "Map_has (cache (fst (snd (LRUBase_deleteIfExpired now (fst p) (snd p) s)))) (fst q)"
    by (simp add: deleteIfExpired_state cache_delete Map_has_Map_delete)
qed

lemma ascending_old_closed:
  assumes "distinct (map fst xs)" and "\<forall>q \<in> set xs. Map_has (oldCache s) (fst q)"
  shows "fst (ascending_old now xs s)
           = filter (\<lambda>p. \<not> Map_has (cache s) (fst p) \<and> \<not> is_expired now (snd p)) xs"
  using assms
proof (induction xs arbitrary: s)
  case Nil
  then show ?case by simp
next
  case (Cons p rest)
  let ?s1 = "fst (snd (LRUBase_deleteIfExpired now (fst p) (snd p) s))"
  have d: "distinct (map fst rest)"
    using Cons.prems(1) by simp
  show ?case
  proof (cases "Map_has (cache s) (fst p)")
    case True
    then show ?thesis
      using Cons.IH [OF d, of s] Cons.prems(2) by simp
  next
    case False
    have c: "cache ?s1 = cache s"
      using False by (rule cache_deleteIfExpired_absent)
    have "fst (ascending_old now rest ?s1)
            = filter (\<lambda>p. \<not> Map_has (cache s) (fst p) \<and> \<not> is_expired now (snd p)) rest"
      using Cons.IH [OF d, of ?s1] rest_present_old [OF Cons.prems] c by simp
    moreover have "fst (LRUBase_deleteIfExpired now (fst p) (snd p) s) = is_expired now (snd p)"
      using Cons.prems(2) by (simp add: deleteIfExpired_present)
    ultimately show ?thesis
      using False by (simp add: case_prod_beta)
  qed
qed

lemma ascending_cache_closed:
  assumes "distinct (map fst xs)" and "\<forall>q \<in> set xs. Map_has (cache s) (fst q)"
  shows "fst (ascending_cache now xs s) = filter (\<lambda>p. \<not> is_expired now (snd p)) xs"
  using assms
proof (induction xs arbitrary: s)
  case Nil
  then show ?case by simp
next
  case (Cons p rest)
  let ?s1 = "fst (snd (LRUBase_deleteIfExpired now (fst p) (snd p) s))"
  have d: "distinct (map fst rest)"
    using Cons.prems(1) by simp
  have "fst (ascending_cache now rest ?s1) = filter (\<lambda>p. \<not> is_expired now (snd p)) rest"
    using Cons.IH [OF d, of ?s1] rest_present_cache [OF Cons.prems] by simp
  moreover have "fst (LRUBase_deleteIfExpired now (fst p) (snd p) s) = is_expired now (snd p)"
    using Cons.prems(2) by (simp add: deleteIfExpired_present)
  ultimately show ?case
    by (simp add: case_prod_beta)
qed

lemma descending_old_closed:
  assumes "distinct (map fst xs)" and "\<forall>q \<in> set xs. Map_has (oldCache s) (fst q)"
  shows "fst (descending_old now xs s)
           = map key_value
               (filter (\<lambda>p. \<not> Map_has (cache s) (fst p) \<and> \<not> is_expired now (snd p)) xs)"
  using assms
proof (induction xs arbitrary: s)
  case Nil
  then show ?case by simp
next
  case (Cons p rest)
  let ?s1 = "fst (snd (LRUBase_deleteIfExpired now (fst p) (snd p) s))"
  have d: "distinct (map fst rest)"
    using Cons.prems(1) by simp
  show ?case
  proof (cases "Map_has (cache s) (fst p)")
    case True
    then show ?thesis
      using Cons.IH [OF d, of s] Cons.prems(2) by simp
  next
    case False
    have c: "cache ?s1 = cache s"
      using False by (rule cache_deleteIfExpired_absent)
    have "fst (descending_old now rest ?s1)
            = map key_value
                (filter (\<lambda>p. \<not> Map_has (cache s) (fst p) \<and> \<not> is_expired now (snd p)) rest)"
      using Cons.IH [OF d, of ?s1] rest_present_old [OF Cons.prems] c by simp
    moreover have "fst (LRUBase_deleteIfExpired now (fst p) (snd p) s) = is_expired now (snd p)"
      using Cons.prems(2) by (simp add: deleteIfExpired_present)
    ultimately show ?thesis
      using False by (simp add: case_prod_beta key_value_def)
  qed
qed

lemma descending_cache_closed:
  assumes "distinct (map fst xs)" and "\<forall>q \<in> set xs. Map_has (cache s) (fst q)"
  shows "fst (descending_cache now xs s)
           = map key_value (filter (\<lambda>p. \<not> is_expired now (snd p)) xs)
       \<and> cache (fst (snd (descending_cache now xs s)))
           = filter (\<lambda>q. fst q \<notin> fst ` {p \<in> set xs. is_expired now (snd p)}) (cache s)
       \<and> oldCache (fst (snd (descending_cache now xs s)))
           = filter (\<lambda>q. fst q \<notin> fst ` {p \<in> set xs. is_expired now (snd p)}) (oldCache s)"
  using assms
proof (induction xs arbitrary: s)
  case Nil
  then show ?case by simp
next
  case (Cons p rest)
  let ?s1 = "fst (snd (LRUBase_deleteIfExpired now (fst p) (snd p) s))"
  let ?D = "fst ` {q \<in> set rest. is_expired now (snd q)}"
  have d: "distinct (map fst rest)"
    using Cons.prems(1) by simp
  have pres: "\<forall>q \<in> set rest. Map_has (cache ?s1) (fst q)"
    using Cons.prems by (rule rest_present_cache)
  have del: "fst (LRUBase_deleteIfExpired now (fst p) (snd p) s) = is_expired now (snd p)"
    using Cons.prems(2) by (simp add: deleteIfExpired_present)
  have D: "fst ` {q \<in> set (p # rest). is_expired now (snd q)}
             = (if is_expired now (snd p) then insert (fst p) ?D else ?D)"
    by auto
  have ih: "fst (descending_cache now rest ?s1)
              = map key_value (filter (\<lambda>p. \<not> is_expired now (snd p)) rest)
          \<and> cache (fst (snd (descending_cache now rest ?s1)))
              = filter (\<lambda>q. fst q \<notin> ?D) (cache ?s1)
          \<and> oldCache (fst (snd (descending_cache now rest ?s1)))
              = filter (\<lambda>q. fst q \<notin> ?D) (oldCache ?s1)"
    using d pres by (rule Cons.IH)
  have items: "fst (descending_cache now (p # rest) s)
                 = map key_value (filter (\<lambda>p. \<not> is_expired now (snd p)) (p # rest))"
    using ih del by (simp add: case_prod_beta key_value_def)
  have c: "cache (fst (snd (descending_cache now (p # rest) s)))
             = filter (\<lambda>q. fst q \<notin> fst ` {q \<in> set (p # rest). is_expired now (snd q)}) (cache s)"
    unfolding D using ih
    by (auto simp: case_prod_beta deleteIfExpired_state cache_delete Map_delete_def
          intro!: filter_cong)
  have old: "oldCache (fst (snd (descending_cache now (p # rest) s)))
             = filter (\<lambda>q. fst q \<notin> fst ` {q \<in> set (p # rest). is_expired now (snd q)}) (oldCache s)"
    unfolding D using ih
    by (auto simp: case_prod_beta deleteIfExpired_state oldCache_delete Map_delete_def
          intro!: filter_cong)
  show ?case
    using items c old by (intro conjI)
qed


lemma entriesAscending_closed:
  assumes "LRUBase_inv s"
  shows "fst (LRUBase_entriesAscending now s)
           = map key_value
               (filter (\<lambda>p. \<not> Map_has (cache s) (fst p) \<and> \<not> is_expired now (snd p)) (oldCache s)
                @ filter (\<lambda>p. \<not> is_expired now (snd p)) (cache s))"
proof -
  let ?r1 = "ascending_old now (oldCache s) s"
  let ?s1 = "fst (snd ?r1)"
  have c: "cache ?s1 = cache s"
    by (rule cache_ascending_old)
  have "fst ?r1
          = filter (\<lambda>p. \<not> Map_has (cache s) (fst p) \<and> \<not> is_expired now (snd p)) (oldCache s)"
    using assms by (intro ascending_old_closed) (auto simp: LRUBase_inv_def Map_has_iff)
  moreover have "fst (ascending_cache now (cache ?s1) ?s1)
          = filter (\<lambda>p. \<not> is_expired now (snd p)) (cache ?s1)"
    using assms c by (intro ascending_cache_closed) (auto simp: LRUBase_inv_def Map_has_iff)
  ultimately show ?thesis
    using c
    by (simp add: LRUBase_entriesAscending_def LRUBase_entriesAscending_priv_def
          case_prod_beta key_value_def)
qed

lemma entriesDescending_closed:
  assumes "LRUBase_inv s"
  shows "fst (LRUBase_entriesDescending now s)
           = map key_value
               (filter (\<lambda>p. \<not> is_expired now (snd p)) (rev (cache s))
                @ filter (\<lambda>p. \<not> Map_has (cache s) (fst p) \<and> \<not> is_expired now (snd p))
                    (rev (oldCache s)))"
proof -
  let ?r1 = "descending_cache now (rev (cache s)) s"
  let ?s1 = "fst (snd ?r1)"
  let ?D = "fst ` {p \<in> set (cache s). is_expired now (snd p)}"
  have r1: "fst ?r1 = map key_value (filter (\<lambda>p. \<not> is_expired now (snd p)) (rev (cache s)))
          \<and> cache ?s1 = filter (\<lambda>q. fst q \<notin> ?D) (cache s)
          \<and> oldCache ?s1 = filter (\<lambda>q. fst q \<notin> ?D) (oldCache s)"
    using assms descending_cache_closed [of "rev (cache s)" s now]
    by (simp add: LRUBase_inv_def Map_has_iff rev_map [symmetric])
  have "distinct (map fst (rev (oldCache ?s1)))"
    using assms r1 by (simp add: LRUBase_inv_def rev_map [symmetric] distinct_map_filter)
  then have "fst (descending_old now (rev (oldCache ?s1)) ?s1)
          = map key_value
              (filter (\<lambda>p. \<not> Map_has (cache ?s1) (fst p) \<and> \<not> is_expired now (snd p))
                 (rev (oldCache ?s1)))"
    by (intro descending_old_closed) (auto simp: Map_has_iff)
  also have "filter (\<lambda>p. \<not> Map_has (cache ?s1) (fst p) \<and> \<not> is_expired now (snd p))
                 (rev (oldCache ?s1))
          = filter (\<lambda>p. \<not> Map_has (cache s) (fst p) \<and> \<not> is_expired now (snd p))
                 (rev (oldCache s))"
  proof -
    have has1: "Map_has (cache ?s1) k \<longleftrightarrow> Map_has (cache s) k \<and> k \<notin> ?D" for k
    proof -
      have "k \<in> fst ` {q \<in> set (cache s). fst q \<notin> ?D}
              \<longleftrightarrow> k \<in> fst ` set (cache s) \<and> k \<notin> ?D"
        by force
      then show ?thesis
        using r1 by (simp add: Map_has_iff)
    qed
    have inD: "k \<in> ?D \<Longrightarrow> Map_has (cache s) k" for k
      by (force simp: Map_has_iff)
    have "filter (\<lambda>p. \<not> Map_has (cache ?s1) (fst p) \<and> \<not> is_expired now (snd p))
            (rev (oldCache ?s1))
          = filter (\<lambda>p. fst p \<notin> ?D \<and> \<not> Map_has (cache ?s1) (fst p)
                        \<and> \<not> is_expired now (snd p)) (rev (oldCache s))"
      using r1 by (simp add: rev_filter [symmetric] conj_commute)
    also have "\<dots> = filter (\<lambda>p. \<not> Map_has (cache s) (fst p) \<and> \<not> is_expired now (snd p))
                        (rev (oldCache s))"
      using has1 inD by (intro filter_cong) auto
    finally show ?thesis .
  qed
  finally show ?thesis
    using r1 by (simp add: LRUBase_entriesDescending_def case_prod_beta)
qed

lemma descending_reverse_inv:
  "LRUBase_inv s \<Longrightarrow>
   fst (LRUBase_entriesDescending now s) = rev (fst (LRUBase_entriesAscending now s))"
  by (simp add: entriesAscending_closed entriesDescending_closed rev_map rev_filter)


subsection \<open>The state a notification of the descending iterator is made in\<close>

lemma present_descending_cache:
  assumes "distinct (map fst xs)" and "\<forall>p \<in> set xs. Map_has (cache s) (fst p)"
    and "c \<in> set (snd (snd (descending_cache now xs s)))"
  shows "Map_has (cache (snd (snd c))) (fst c)"
  using assms
proof (induction xs arbitrary: s)
  case Nil
  then show ?case by simp
next
  case (Cons p rest)
  let ?r = "LRUBase_deleteIfExpired now (fst p) (snd p) s"
  have rest: "\<forall>q \<in> set rest. Map_has (cache (fst (snd ?r))) (fst q)"
    using Cons.prems(1,2) by (rule rest_present_cache)
  have "c \<in> set (snd (snd ?r)) \<or> c \<in> set (snd (snd (descending_cache now rest (fst (snd ?r)))))"
    using Cons.prems(3) by (simp add: case_prod_beta)
  then show ?case
  proof
    assume "c \<in> set (snd (snd ?r))"
    then have "c = (fst p, item_value (snd p), s)"
      using snapshot_deleteIfExpired [of c now "fst p" "snd p" s] by simp
    then show ?thesis
      using Cons.prems(2) by simp
  next
    assume "c \<in> set (snd (snd (descending_cache now rest (fst (snd ?r)))))"
    then show ?thesis
      using Cons.IH [of "fst (snd ?r)"] Cons.prems(1) rest by simp
  qed
qed

lemma present_descending_old:
  assumes "distinct (map fst xs)" and "\<forall>p \<in> set xs. Map_has (oldCache s) (fst p)"
    and "c \<in> set (snd (snd (descending_old now xs s)))"
  shows "Map_has (oldCache (snd (snd c))) (fst c)"
  using assms
proof (induction xs arbitrary: s)
  case Nil
  then show ?case by simp
next
  case (Cons p rest)
  let ?r = "LRUBase_deleteIfExpired now (fst p) (snd p) s"
  have rest: "\<forall>q \<in> set rest. Map_has (oldCache (fst (snd ?r))) (fst q)"
    using Cons.prems(1,2) by (rule rest_present_old)
  show ?case
  proof (cases "Map_has (cache s) (fst p)")
    case True
    then have "c \<in> set (snd (snd (descending_old now rest s)))"
      using Cons.prems(3) by simp
    then show ?thesis
      using Cons.IH [of s] Cons.prems(1,2) by simp
  next
    case False
    then have "c \<in> set (snd (snd ?r))
             \<or> c \<in> set (snd (snd (descending_old now rest (fst (snd ?r)))))"
      using Cons.prems(3) by (simp add: case_prod_beta)
    then show ?thesis
    proof
      assume "c \<in> set (snd (snd ?r))"
      then have "c = (fst p, item_value (snd p), s)"
        using snapshot_deleteIfExpired [of c now "fst p" "snd p" s] by simp
      then show ?thesis
        using Cons.prems(2) by simp
    next
      assume "c \<in> set (snd (snd (descending_old now rest (fst (snd ?r)))))"
      then show ?thesis
        using Cons.IH [of "fst (snd ?r)"] Cons.prems(1) rest by simp
    qed
  qed
qed

lemma present_entriesDescending:
  assumes "LRUBase_inv s" and "c \<in> set (snd (snd (LRUBase_entriesDescending now s)))"
  shows "Map_has (cache (snd (snd c))) (fst c) \<or> Map_has (oldCache (snd (snd c))) (fst c)"
proof -
  let ?r1 = "descending_cache now (rev (cache s)) s"
  let ?s1 = "fst (snd ?r1)"
  let ?r2 = "descending_old now (rev (oldCache ?s1)) ?s1"
  have i1: "LRUBase_inv ?s1"
    using assms(1) by (rule inv_descending_cache)
  have "c \<in> set (snd (snd ?r1)) \<or> c \<in> set (snd (snd ?r2))"
    using assms(2) by (simp add: LRUBase_entriesDescending_def case_prod_beta)
  moreover have "Map_has (cache (snd (snd c))) (fst c)" if "c \<in> set (snd (snd ?r1))"
    using present_descending_cache [of "rev (cache s)" s c now] assms(1) that
    by (simp add: LRUBase_inv_def Map_has_iff rev_map [symmetric])
  moreover have "Map_has (oldCache (snd (snd c))) (fst c)" if "c \<in> set (snd (snd ?r2))"
    using present_descending_old [of "rev (oldCache ?s1)" ?s1 c now] i1 that
    by (simp add: LRUBase_inv_def Map_has_iff rev_map [symmetric])
  ultimately show ?thesis
    by blast
qed


subsection \<open>Operations that keep the entry of a key\<close>

lemma lookup_deleteIfExpired_kept:
  "k = key \<longrightarrow> \<not> is_expired now item \<Longrightarrow>
   LRUBase_lookup (fst (snd (LRUBase_deleteIfExpired now k item s))) key = LRUBase_lookup s key"
  by (auto simp: deleteIfExpired_state lookup_delete)

lemma lookup_cache_entry:
  "Map_has (cache s) k \<Longrightarrow> Map_get (cache s) k = Some item \<Longrightarrow> LRUBase_lookup s k = Some item"
  by (simp add: LRUBase_lookup_def)

lemma lookup_old_entry:
  "\<not> Map_has (cache s) k \<Longrightarrow> Map_get (oldCache s) k = Some item \<Longrightarrow>
   LRUBase_lookup s k = Some item"
  by (simp add: LRUBase_lookup_def Map_has_def Map_get_def split: option.splits)

lemma lookup_getItemValue_kept:
  assumes "k = key \<longrightarrow> \<not> is_expired now item"
  shows "LRUBase_lookup (fst (snd (LRUBase_getItemValue now k item s))) key = LRUBase_lookup s key"
  using lookup_deleteIfExpired_kept [OF assms, of s]
  by (simp add: LRUBase_getItemValue_def LRUBase_getOrDeleteIfExpired_def case_prod_beta)

lemma lookup_has_kept:
  assumes "\<not> (k = key \<and> expired_entry now s key)"
  shows "LRUBase_lookup (fst (snd (LRUBase_has now k s))) key = LRUBase_lookup s key"
proof (cases "Map_has (cache s) k")
  case True
  then obtain item where item: "Map_get (cache s) k = Some item"
    by (auto simp: Map_has_def Map_get_def)
  then have "k = key \<longrightarrow> \<not> is_expired now item"
    using assms True lookup_cache_entry [of s k item] by (auto simp: expired_entry_def)
  then show ?thesis
    using True item by (simp add: LRUBase_has_def case_prod_beta lookup_deleteIfExpired_kept)
next
  case False
  show ?thesis
  proof (cases "Map_get (oldCache s) k")
    case None
    then show ?thesis
      using False by (simp add: LRUBase_has_def Map_has_def Map_get_def)
  next
    case (Some item)
    then have "k = key \<longrightarrow> \<not> is_expired now item"
      using assms False lookup_old_entry [of s k item] by (auto simp: expired_entry_def)
    then show ?thesis
      using False Some
      by (simp add: LRUBase_has_def case_prod_beta lookup_deleteIfExpired_kept)
  qed
qed

lemma lookup_peek_kept:
  assumes "\<not> (k = key \<and> expired_entry now s key)"
  shows "LRUBase_lookup (fst (snd (LRUBase_peek now k s))) key = LRUBase_lookup s key"
proof (cases "Map_has (cache s) k")
  case True
  then obtain item where item: "Map_get (cache s) k = Some item"
    by (auto simp: Map_has_def Map_get_def)
  then have "k = key \<longrightarrow> \<not> is_expired now item"
    using assms True lookup_cache_entry [of s k item] by (auto simp: expired_entry_def)
  then show ?thesis
    using True item
    by (simp add: LRUBase_peek_def LRUBase_peek_priv_def lookup_getItemValue_kept)
next
  case False
  show ?thesis
  proof (cases "Map_get (oldCache s) k")
    case None
    then show ?thesis
      using False by (simp add: LRUBase_peek_def LRUBase_peek_priv_def)
  next
    case (Some item)
    then have "k = key \<longrightarrow> \<not> is_expired now item"
      using assms False lookup_old_entry [of s k item] by (auto simp: expired_entry_def)
    then show ?thesis
      using False Some
      by (simp add: LRUBase_peek_def LRUBase_peek_priv_def lookup_getItemValue_kept)
  qed
qed

lemma lookup_set_priv_exact:
  assumes "k \<noteq> key"
  shows "LRUBase_lookup (fst (LRUBase_set_priv k item s)) key
           = (if maxSize s \<le> size_priv s + 1 \<and> \<not> Map_has (cache s) key then None
              else LRUBase_lookup s key)"
  using assms
  by (auto simp: LRUBase_set_priv_def LRUBase_lookup_def Let_def Map_get_def Map_has_def
        map_of_Map_set split: option.splits)

lemma lookup_moveToRecent_exact:
  assumes "k \<noteq> key"
  shows "LRUBase_lookup (fst (LRUBase_moveToRecent k item s)) key
           = (if maxSize s \<le> size_priv s + 1 \<and> \<not> Map_has (cache s) key then None
              else LRUBase_lookup s key)"
proof -
  let ?s1 = "s\<lparr>oldCache := Map_delete (oldCache s) k\<rparr>"
  have "LRUBase_lookup ?s1 key = LRUBase_lookup s key"
    using assms
    by (simp add: LRUBase_lookup_def Map_get_def map_of_Map_delete split: option.splits)
  then show ?thesis
    using lookup_set_priv_exact [OF assms, of item ?s1]
    by (simp add: LRUBase_moveToRecent_def)
qed

lemma lookup_moveToRecent_same:
  "LRUBase_lookup (fst (LRUBase_moveToRecent key item s)) key = Some item"
  by (simp add: LRUBase_moveToRecent_def lookup_set_priv_same)


lemma lookup_get_kept:
  assumes "\<not> rotation_evicts now (OpGet k) s key" and "\<not> expires now (OpGet k) s key"
  shows "LRUBase_lookup (fst (snd (LRUBase_get now k s))) key = LRUBase_lookup s key"
proof (cases "Map_has (cache s) k")
  case True
  then obtain item where item: "Map_get (cache s) k = Some item"
    by (auto simp: Map_has_def Map_get_def)
  then have "k = key \<longrightarrow> \<not> is_expired now item"
    using assms(2) True lookup_cache_entry [of s k item]
    by (auto simp: expires_def expired_entry_def)
  then show ?thesis
    using True item by (simp add: LRUBase_get_def lookup_getItemValue_kept)
next
  case False
  show ?thesis
  proof (cases "Map_get (oldCache s) k")
    case None
    then show ?thesis
      using False by (simp add: LRUBase_get_def)
  next
    case (Some item)
    then have old: "Map_has (oldCache s) k"
      by (simp add: Map_has_def Map_get_def)
    have l: "LRUBase_lookup s k = Some item"
      using False Some by (rule lookup_old_entry)
    show ?thesis
    proof (cases "is_expired now item")
      case True
      then have "k \<noteq> key"
        using assms(2) l by (auto simp: expires_def expired_entry_def)
      then show ?thesis
        using False Some old True
        by (simp add: LRUBase_get_def case_prod_beta deleteIfExpired_result delete_result
              deleteIfExpired_state lookup_delete)
    next
      case fresh: False
      show ?thesis
      proof (cases "k = key")
        case True
        then show ?thesis
          using False Some old fresh l
          by (simp add: LRUBase_get_def deleteIfExpired_fresh lookup_moveToRecent_same)
      next
        case other: False
        have "inserted_key now (OpGet k) s = Some k"
          using False Some fresh by (simp add: inserted_key_def)
        then have "\<not> (maxSize s \<le> size_priv s + 1 \<and> \<not> Map_has (cache s) key)"
          using assms(1) other by (simp add: rotation_evicts_def)
        then show ?thesis
          using False Some old fresh lookup_moveToRecent_exact [OF other, of item s]
          by (auto simp: LRUBase_get_def deleteIfExpired_fresh)
      qed
    qed
  qed
qed

lemma lookup_set_kept:
  assumes "k \<noteq> key" and "\<not> rotation_evicts now (OpSet k v a) s key"
  shows "LRUBase_lookup (fst (LRUBase_set now k v a s)) key = LRUBase_lookup s key"
proof (cases "Map_has (cache s) k")
  case True
  then show ?thesis
    using assms(1)
    by (simp add: LRUBase_set_def Let_def LRUBase_lookup_def Map_get_def map_of_Map_set
          split: option.splits)
next
  case False
  then have "inserted_key now (OpSet k v a) s = Some k"
    by (simp add: inserted_key_def)
  then have "\<not> (maxSize s \<le> size_priv s + 1 \<and> \<not> Map_has (cache s) key)"
    using assms by (simp add: rotation_evicts_def)
  then show ?thesis
    using False lookup_set_priv_exact [OF assms(1), of _ s]
    by (auto simp: LRUBase_set_def Let_def)
qed

lemma lookup_ascending_old_kept:
  assumes "\<forall>p \<in> set xs. fst p = key \<and> \<not> Map_has (cache s) key \<longrightarrow> \<not> is_expired now (snd p)"
  shows "LRUBase_lookup (fst (snd (ascending_old now xs s))) key = LRUBase_lookup s key"
  using assms
proof (induction xs arbitrary: s)
  case Nil
  then show ?case by simp
next
  case (Cons p rest)
  show ?case
  proof (cases "Map_has (cache s) (fst p)")
    case True
    then show ?thesis
      using Cons.IH [of s] Cons.prems by simp
  next
    case False
    let ?s1 = "fst (snd (LRUBase_deleteIfExpired now (fst p) (snd p) s))"
    have "fst p = key \<longrightarrow> \<not> is_expired now (snd p)"
      using Cons.prems False by auto
    then have l: "LRUBase_lookup ?s1 key = LRUBase_lookup s key"
      by (rule lookup_deleteIfExpired_kept)
    have "cache ?s1 = cache s"
      using False by (rule cache_deleteIfExpired_absent)
    then have "LRUBase_lookup (fst (snd (ascending_old now rest ?s1))) key = LRUBase_lookup ?s1 key"
      using Cons.IH [of ?s1] Cons.prems by simp
    then show ?thesis
      using False l by (simp add: case_prod_beta)
  qed
qed

lemma lookup_descending_old_kept:
  assumes "\<forall>p \<in> set xs. fst p = key \<and> \<not> Map_has (cache s) key \<longrightarrow> \<not> is_expired now (snd p)"
  shows "LRUBase_lookup (fst (snd (descending_old now xs s))) key = LRUBase_lookup s key"
  using assms
proof (induction xs arbitrary: s)
  case Nil
  then show ?case by simp
next
  case (Cons p rest)
  show ?case
  proof (cases "Map_has (cache s) (fst p)")
    case True
    then show ?thesis
      using Cons.IH [of s] Cons.prems by simp
  next
    case False
    let ?s1 = "fst (snd (LRUBase_deleteIfExpired now (fst p) (snd p) s))"
    have "fst p = key \<longrightarrow> \<not> is_expired now (snd p)"
      using Cons.prems False by auto
    then have l: "LRUBase_lookup ?s1 key = LRUBase_lookup s key"
      by (rule lookup_deleteIfExpired_kept)
    have "cache ?s1 = cache s"
      using False by (rule cache_deleteIfExpired_absent)
    then have "LRUBase_lookup (fst (snd (descending_old now rest ?s1))) key = LRUBase_lookup ?s1 key"
      using Cons.IH [of ?s1] Cons.prems by simp
    then show ?thesis
      using False l by (simp add: case_prod_beta)
  qed
qed

lemma lookup_ascending_cache_kept:
  assumes "\<forall>p \<in> set xs. fst p = key \<longrightarrow> \<not> is_expired now (snd p)"
  shows "LRUBase_lookup (fst (snd (ascending_cache now xs s))) key = LRUBase_lookup s key"
  using assms
proof (induction xs arbitrary: s)
  case Nil
  then show ?case by simp
next
  case (Cons p rest)
  let ?s1 = "fst (snd (LRUBase_deleteIfExpired now (fst p) (snd p) s))"
  have "fst p = key \<longrightarrow> \<not> is_expired now (snd p)"
    using Cons.prems by simp
  then have "LRUBase_lookup ?s1 key = LRUBase_lookup s key"
    by (rule lookup_deleteIfExpired_kept)
  moreover have "LRUBase_lookup (fst (snd (ascending_cache now rest ?s1))) key
                   = LRUBase_lookup ?s1 key"
    using Cons.IH [of ?s1] Cons.prems by simp
  ultimately show ?case
    by (simp add: case_prod_beta)
qed

lemma lookup_descending_cache_kept:
  assumes "\<forall>p \<in> set xs. fst p = key \<longrightarrow> \<not> is_expired now (snd p)"
  shows "LRUBase_lookup (fst (snd (descending_cache now xs s))) key = LRUBase_lookup s key"
  using assms
proof (induction xs arbitrary: s)
  case Nil
  then show ?case by simp
next
  case (Cons p rest)
  let ?s1 = "fst (snd (LRUBase_deleteIfExpired now (fst p) (snd p) s))"
  have "fst p = key \<longrightarrow> \<not> is_expired now (snd p)"
    using Cons.prems by simp
  then have "LRUBase_lookup ?s1 key = LRUBase_lookup s key"
    by (rule lookup_deleteIfExpired_kept)
  moreover have "LRUBase_lookup (fst (snd (descending_cache now rest ?s1))) key
                   = LRUBase_lookup ?s1 key"
    using Cons.IH [of ?s1] Cons.prems by simp
  ultimately show ?case
    by (simp add: case_prod_beta)
qed

lemma fresh_old_entries:
  assumes "LRUBase_inv s" and "\<not> expired_entry now s key"
  shows "\<forall>p \<in> set (oldCache s). fst p = key \<and> \<not> Map_has (cache s) key \<longrightarrow> \<not> is_expired now (snd p)"
proof (intro ballI impI)
  fix p
  assume p: "p \<in> set (oldCache s)" and k: "fst p = key \<and> \<not> Map_has (cache s) key"
  have "(key, snd p) \<in> set (oldCache s)"
    using p k by (metis prod.collapse)
  then have "map_of (oldCache s) key = Some (snd p)"
    using assms(1) by (simp add: LRUBase_inv_def)
  then have "LRUBase_lookup s key = Some (snd p)"
    using k lookup_old_entry [of s key "snd p"] by (simp add: Map_get_def)
  then show "\<not> is_expired now (snd p)"
    using assms(2) by (simp add: expired_entry_def)
qed

lemma fresh_cache_entries:
  assumes "LRUBase_inv s" and "\<not> expired_entry now s key"
  shows "\<forall>p \<in> set (cache s). fst p = key \<longrightarrow> \<not> is_expired now (snd p)"
proof (intro ballI impI)
  fix p
  assume p: "p \<in> set (cache s)" and k: "fst p = key"
  have "(key, snd p) \<in> set (cache s)"
    using p k by (metis prod.collapse)
  then have "map_of (cache s) key = Some (snd p)"
    using assms(1) by (simp add: LRUBase_inv_def)
  then have "LRUBase_lookup s key = Some (snd p)"
    by (simp add: LRUBase_lookup_def Map_get_def)
  then show "\<not> is_expired now (snd p)"
    using assms(2) by (simp add: expired_entry_def)
qed

lemma lookup_entriesAscending_priv_kept:
  assumes "LRUBase_inv s" and "\<not> expired_entry now s key"
  shows "LRUBase_lookup (fst (snd (LRUBase_entriesAscending_priv now s))) key
           = LRUBase_lookup s key"
proof -
  let ?s1 = "fst (snd (ascending_old now (oldCache s) s))"
  have l1: "LRUBase_lookup ?s1 key = LRUBase_lookup s key"
    using fresh_old_entries [OF assms] by (rule lookup_ascending_old_kept)
  have "LRUBase_inv ?s1"
    using assms(1) by (rule inv_ascending_old)
  moreover have "\<not> expired_entry now ?s1 key"
    using assms(2) l1 by (simp add: expired_entry_def)
  ultimately have "\<forall>p \<in> set (cache ?s1). fst p = key \<longrightarrow> \<not> is_expired now (snd p)"
    by (rule fresh_cache_entries)
  then have "LRUBase_lookup (fst (snd (ascending_cache now (cache ?s1) ?s1))) key
               = LRUBase_lookup ?s1 key"
    by (rule lookup_ascending_cache_kept)
  then show ?thesis
    using l1 by (simp add: LRUBase_entriesAscending_priv_def case_prod_beta)
qed

lemma lookup_entriesDescending_kept:
  assumes "LRUBase_inv s" and "\<not> expired_entry now s key"
  shows "LRUBase_lookup (fst (snd (LRUBase_entriesDescending now s))) key = LRUBase_lookup s key"
proof -
  let ?s1 = "fst (snd (descending_cache now (rev (cache s)) s))"
  have "\<forall>p \<in> set (rev (cache s)). fst p = key \<longrightarrow> \<not> is_expired now (snd p)"
    using fresh_cache_entries [OF assms] by simp
  then have l1: "LRUBase_lookup ?s1 key = LRUBase_lookup s key"
    by (rule lookup_descending_cache_kept)
  have "LRUBase_inv ?s1"
    using assms(1) by (rule inv_descending_cache)
  moreover have "\<not> expired_entry now ?s1 key"
    using assms(2) l1 by (simp add: expired_entry_def)
  ultimately have "\<forall>p \<in> set (oldCache ?s1).
                     fst p = key \<and> \<not> Map_has (cache ?s1) key \<longrightarrow> \<not> is_expired now (snd p)"
    by (rule fresh_old_entries)
  then have "\<forall>p \<in> set (rev (oldCache ?s1)).
               fst p = key \<and> \<not> Map_has (cache ?s1) key \<longrightarrow> \<not> is_expired now (snd p)"
    by simp
  then have "LRUBase_lookup (fst (snd (descending_old now (rev (oldCache ?s1)) ?s1))) key
               = LRUBase_lookup ?s1 key"
    by (rule lookup_descending_old_kept)
  then show ?thesis
    using l1 by (simp add: LRUBase_entriesDescending_def case_prod_beta)
qed


lemma entriesAscending_priv_closed:
  assumes "LRUBase_inv s"
  shows "fst (LRUBase_entriesAscending_priv now s)
           = filter (\<lambda>p. \<not> Map_has (cache s) (fst p) \<and> \<not> is_expired now (snd p)) (oldCache s)
             @ filter (\<lambda>p. \<not> is_expired now (snd p)) (cache s)"
proof -
  let ?r1 = "ascending_old now (oldCache s) s"
  let ?s1 = "fst (snd ?r1)"
  have c: "cache ?s1 = cache s"
    by (rule cache_ascending_old)
  have "fst ?r1
          = filter (\<lambda>p. \<not> Map_has (cache s) (fst p) \<and> \<not> is_expired now (snd p)) (oldCache s)"
    using assms by (intro ascending_old_closed) (auto simp: LRUBase_inv_def Map_has_iff)
  moreover have "fst (ascending_cache now (cache ?s1) ?s1)
          = filter (\<lambda>p. \<not> is_expired now (snd p)) (cache ?s1)"
    using assms c by (intro ascending_cache_closed) (auto simp: LRUBase_inv_def Map_has_iff)
  ultimately show ?thesis
    using c by (simp add: LRUBase_entriesAscending_priv_def case_prod_beta)
qed

lemma walked_item_member:
  assumes "LRUBase_inv s" and "LRUBase_lookup s key = Some item" and "\<not> is_expired now item"
  shows "(key, item) \<in> set (fst (LRUBase_entriesAscending_priv now s))"
proof (cases "Map_has (cache s) key")
  case True
  then have "map_of (cache s) key = Some item"
    using assms(2) by (auto simp: LRUBase_lookup_def Map_has_def Map_get_def split: option.splits)
  then have "(key, item) \<in> set (cache s)"
    by (rule map_of_SomeD)
  then show ?thesis
    using assms(1,3) by (simp add: entriesAscending_priv_closed)
next
  case False
  then have "map_of (oldCache s) key = Some item"
    using assms(2) by (auto simp: LRUBase_lookup_def Map_has_def Map_get_def split: option.splits)
  then have "(key, item) \<in> set (oldCache s)"
    by (rule map_of_SomeD)
  then show ?thesis
    using assms(1,3) False by (simp add: entriesAscending_priv_closed)
qed

lemma lookup_resize_kept:
  assumes "LRUBase_inv s" and "LRUBase_resize now n s = Inr r"
    and "\<not> expired_entry now s key" and "\<not> resize_evicts now (OpResize n) s key"
  shows "LRUBase_lookup (fst r) key = LRUBase_lookup s key"
proof (cases "LRUBase_lookup s key")
  case None
  then show ?thesis
    using only_forgets_resize [OF assms(1), of now n "fst r" "snd r"] assms(2)
    by (auto simp: only_forgets_def)
next
  case (Some item)
  let ?items = "fst (LRUBase_entriesAscending_priv now s)"
  let ?k = "nat (int (length ?items) - n)"
  have n: "0 < n"
    using assms(2) by (auto simp: LRUBase_resize_def split: if_splits)
  have d: "distinct (map fst ?items)"
    using assms(1) by (rule distinct_entriesAscending_priv)
  have dd: "distinct (map fst (drop ?k ?items))"
    using d by (simp add: drop_map [symmetric])
  have "\<not> is_expired now item"
    using assms(3) Some by (simp add: expired_entry_def)
  then have m: "(key, item) \<in> set ?items"
    using assms(1) Some by (intro walked_item_member)
  have "\<not> Map_has (take ?k ?items) key"
    using assms(4) n by (simp add: resize_evicts_def Let_def)
  then have "(key, item) \<notin> set (take ?k ?items)"
    by (force simp: Map_has_iff)
  then have md: "(key, item) \<in> set (drop ?k ?items)"
    using m by (metis Un_iff append_take_drop_id set_append)
  have shape: "(cache (fst r) = ?items \<and> oldCache (fst r) = [])
             \<or> (cache (fst r) = [] \<and> oldCache (fst r) = drop ?k ?items)"
    using assms(2) d dd
    by (auto simp: LRUBase_resize_def case_prod_beta Let_def Map_new_distinct split: if_splits)
  then have "LRUBase_lookup (fst r) key = Some item"
    using m md d dd by (auto simp: LRUBase_lookup_def Map_get_def)
  then show ?thesis
    using Some by simp
qed

lemma lookup_step_kept:
  assumes "LRUBase_inv s" and "\<not> sets_key key x" and "\<not> removes now x s key"
  shows "LRUBase_lookup (LRUBase_step now x s) key = LRUBase_lookup s key"
proof (cases x)
  case (OpGet k)
  then show ?thesis
    using assms(3) lookup_get_kept [of now k s key] by (simp add: removes_def)
next
  case (OpSet k v a)
  then have "k \<noteq> key"
    using assms(2) by (simp add: sets_key_def)
  then show ?thesis
    using OpSet assms(3) lookup_set_kept [of k key now v a s] by (simp add: removes_def)
next
  case (OpHas k)
  then show ?thesis
    using assms(3) lookup_has_kept [of k key now s] by (simp add: removes_def expires_def)
next
  case (OpPeek k)
  then show ?thesis
    using assms(3) lookup_peek_kept [of k key now s] by (simp add: removes_def expires_def)
next
  case (OpDelete k)
  then show ?thesis
    using assms(3) by (auto simp: removes_def lookup_delete)
next
  case OpClear
  then show ?thesis
    using assms(3) by (simp add: removes_def)
next
  case (OpResize n)
  show ?thesis
  proof (cases "LRUBase_resize now n s")
    case (Inl e)
    then show ?thesis
      using OpResize by simp
  next
    case (Inr r)
    then have n: "0 < n"
      by (auto simp: LRUBase_resize_def split: if_splits)
    have "\<not> expired_entry now s key" and "\<not> resize_evicts now (OpResize n) s key"
      using assms(3) OpResize n by (simp_all add: removes_def expires_def)
    then show ?thesis
      using OpResize Inr lookup_resize_kept [OF assms(1) Inr] by simp
  qed
next
  case OpEntriesAscending
  then have "\<not> expired_entry now s key"
    using assms(3) by (simp add: removes_def expires_def)
  then show ?thesis
    using OpEntriesAscending lookup_entriesAscending_priv_kept [OF assms(1), of now key]
    by (simp add: LRUBase_entriesAscending_def case_prod_beta)
next
  case OpEntriesDescending
  then have "\<not> expired_entry now s key"
    using assms(3) by (simp add: removes_def expires_def)
  then show ?thesis
    using OpEntriesDescending lookup_entriesDescending_kept [OF assms(1), of now key] by simp
qed

lemma lookup_run_kept:
  assumes "LRUBase_inv s" and "list_all (\<lambda>x. \<not> sets_key key (snd x)) ops"
    and "not_removed ops s key"
  shows "LRUBase_lookup (LRUBase_run ops s) key = LRUBase_lookup s key"
  using assms
proof (induction ops arbitrary: s)
  case Nil
  then show ?case by simp
next
  case (Cons x ops)
  let ?s1 = "LRUBase_step (fst x) (snd x) s"
  have "LRUBase_inv ?s1"
    using Cons.prems(1) by (rule inv_step)
  then have "LRUBase_lookup (LRUBase_run ops ?s1) key = LRUBase_lookup ?s1 key"
    using Cons.IH [of ?s1] Cons.prems(2,3) by simp
  moreover have "LRUBase_lookup ?s1 key = LRUBase_lookup s key"
    using lookup_step_kept [of s key "snd x" "fst x"] Cons.prems by simp
  ultimately show ?case
    by simp
qed


section \<open>Claims\<close>

text \<open>
  C7. On a fresh cache with \<open>maxSize = 2\<close>, no TTL and an eviction callback:
  \<open>set(a,1)\<close> then \<open>set(b,2)\<close> rotates (the active generation becomes the previous one)
  with no eviction notification; \<open>get(a)\<close> returns 1 and promotes \<open>a\<close> into the active
  generation; \<open>set(c,3)\<close> rotates again and notifies exactly once, with \<open>(b,2)\<close>, leaving
  previous = \<open>{a:1, c:3}\<close>; afterwards \<open>get(b)\<close> is not-found, \<open>get(a)\<close> is 1 and \<open>get(c)\<close>
  is 3. The clock readings \<open>t1 \<dots> t7\<close> are arbitrary.
\<close>

theorem scenario_maxSize_2:
  "\<exists>s0 s1 s2 s3 s4 s5 s6 s7 c4.
     LRUBase_new \<lparr>opt_maxAge = None, opt_maxSize = 2, opt_onEviction = True\<rparr> = Inr s0
   \<and> LRUBase_set t1 ''a'' (1::int) None s0 = (s1, [])
   \<and> LRUBase_set t2 ''b'' 2 None s1 = (s2, [])
   \<and> cache s2 = [] \<and> size_priv s2 = 0
   \<and> oldCache s2 = [(''a'', \<lparr>item_value = 1, expiry = None\<rparr>),
                     (''b'', \<lparr>item_value = 2, expiry = None\<rparr>)]
   \<and> LRUBase_get t3 ''a'' s2 = (Some 1, s3, [])
   \<and> cache s3 = [(''a'', \<lparr>item_value = 1, expiry = None\<rparr>)]
   \<and> oldCache s3 = [(''b'', \<lparr>item_value = 2, expiry = None\<rparr>)]
   \<and> LRUBase_set t4 ''c'' 3 None s3 = (s4, c4)
   \<and> notified c4 = [(''b'', 2)]
   \<and> cache s4 = [] \<and> size_priv s4 = 0
   \<and> oldCache s4 = [(''a'', \<lparr>item_value = 1, expiry = None\<rparr>),
                     (''c'', \<lparr>item_value = 3, expiry = None\<rparr>)]
   \<and> LRUBase_get t5 ''b'' s4 = (None, s5, [])
   \<and> LRUBase_get t6 ''a'' s5 = (Some 1, s6, [])
   \<and> LRUBase_get t7 ''c'' s6 = (Some 3, s7, [])"
  by (simp add: lru_defs)

text \<open>
  C1. For every sequence of operations (get, set, has, peek, delete, clear, resize and the
  two ordered iterations, at any clock readings) on a cache the constructor accepted, after
  every operation of it (after its first \<open>n\<close> operations, for every \<open>n\<close>) the reported size
  is at most the current \<open>maxSize\<close>.
\<close>

theorem size_le_maxSize:
  assumes "LRUBase_new options = Inr s0"
  shows "LRUBase_size (LRUBase_run (take n ops) s0)
           \<le> LRUBase_maxSize (LRUBase_run (take n ops) s0)"
proof -
  have "LRUBase_inv s0"
    using assms by (rule inv_new)
  then have "LRUBase_inv (LRUBase_run (take n ops) s0)"
    by (rule inv_run)
  then show ?thesis
    by (rule size_le_maxSize_inv)
qed

theorem size_le_maxSize_witness:
  "LRUBase_new \<lparr>opt_maxAge = Some (Num 50), opt_maxSize = 2, opt_onEviction = True\<rparr>
     = Inr (\<lparr>size_priv = 0, cache = [], oldCache = [], maxSize = 2, maxAge = Num 50,
            onEviction = True\<rparr> :: (string, int) LRUBase)
   \<and> LRUBase_size (LRUBase_run (take 6
        [(0, OpSet ''a'' (1::int) None), (1, OpSet ''b'' 2 None), (2, OpGet ''a''),
         (3, OpSet ''c'' 3 (Some POSITIVE_INFINITY)), (60, OpHas ''a''), (61, OpResize 1),
         (62, OpDelete ''c''), (63, OpEntriesDescending), (64, OpClear)])
        \<lparr>size_priv = 0, cache = [], oldCache = [], maxSize = 2, maxAge = Num 50,
          onEviction = True\<rparr>)
     \<le> LRUBase_maxSize (LRUBase_run (take 6
        [(0, OpSet ''a'' (1::int) None), (1, OpSet ''b'' 2 None), (2, OpGet ''a''),
         (3, OpSet ''c'' 3 (Some POSITIVE_INFINITY)), (60, OpHas ''a''), (61, OpResize 1),
         (62, OpDelete ''c''), (63, OpEntriesDescending), (64, OpClear)])
        \<lparr>size_priv = 0, cache = [], oldCache = [], maxSize = 2, maxAge = Num 50,
          onEviction = True\<rparr>)"
proof -
  have h: "LRUBase_new \<lparr>opt_maxAge = Some (Num 50), opt_maxSize = 2, opt_onEviction = True\<rparr>
     = Inr (\<lparr>size_priv = 0, cache = [], oldCache = [], maxSize = 2, maxAge = Num 50,
            onEviction = True\<rparr> :: (string, int) LRUBase)"
    by (simp add: LRUBase_new_def)
  show ?thesis
    by (rule conjI) (rule h, rule size_le_maxSize [OF h])
qed


text \<open>
  C6 (amended). At every reachable state the reported size is
  \<open>min(maxSize, active-count + number of keys of previous not in active)\<close>, the active-count
  is the number of entries of the active generation, and so the size is the number of
  distinct keys physically present in the two generations, capped at \<open>maxSize\<close>. Expiry
  plays no part: the getter never looks at it.
\<close>

theorem size_formula_reachable:
  assumes "LRUBase_new options = Inr s0" and "s = LRUBase_run ops s0"
  shows "LRUBase_size s
           = min (maxSize s)
               (size_priv s
                + int (length (filter (\<lambda>key. \<not> Map_has (cache s) key) (map fst (oldCache s)))))
       \<and> size_priv s = int (length (cache s))
       \<and> LRUBase_size s
           = min (maxSize s) (int (card (fst ` set (cache s) \<union> fst ` set (oldCache s))))"
proof -
  have i: "LRUBase_inv s"
    using assms by (simp add: inv_new inv_run)
  have "size_priv s = int (length (cache s))"
    using i by (simp add: LRUBase_inv_def)
  then show ?thesis
    using size_formula_inv [OF i] present_keys_card [OF i] by simp
qed

theorem size_formula_reachable_witness:
  "LRUBase_new \<lparr>opt_maxAge = None, opt_maxSize = 3, opt_onEviction = False\<rparr>
     = Inr (\<lparr>size_priv = 0, cache = [], oldCache = [], maxSize = 3, maxAge = POSITIVE_INFINITY,
             onEviction = False\<rparr> :: (string, int) LRUBase)
   \<and> \<lparr>size_priv = 2,
       cache = [(''x'', \<lparr>item_value = 1, expiry = Some 50\<rparr>),
                (''y'', \<lparr>item_value = 2, expiry = None\<rparr>)],
       oldCache = [], maxSize = 3, maxAge = POSITIVE_INFINITY, onEviction = False\<rparr>
     = LRUBase_run [(0, OpSet ''x'' (1::int) (Some (Num 50))), (100, OpSet ''y'' 2 None)]
         \<lparr>size_priv = 0, cache = [], oldCache = [], maxSize = 3, maxAge = POSITIVE_INFINITY,
           onEviction = False\<rparr>
   \<and> LRUBase_size
        (\<lparr>size_priv = 2,
          cache = [(''x'', \<lparr>item_value = (1::int), expiry = Some 50\<rparr>),
                   (''y'', \<lparr>item_value = 2, expiry = None\<rparr>)],
          oldCache = [], maxSize = 3, maxAge = POSITIVE_INFINITY, onEviction = False\<rparr>) = 2"
proof -
  let ?init = "\<lparr>size_priv = 0, cache = [], oldCache = [], maxSize = 3, maxAge = POSITIVE_INFINITY,
        onEviction = False\<rparr> :: (string, int) LRUBase"
  let ?ops = "[(0, OpSet ''x'' (1::int) (Some (Num 50))), (100, OpSet ''y'' 2 None)]"
  let ?final = "\<lparr>size_priv = 2,
       cache = [(''x'', \<lparr>item_value = (1::int), expiry = Some 50\<rparr>),
                (''y'', \<lparr>item_value = 2, expiry = None\<rparr>)],
       oldCache = [], maxSize = 3, maxAge = POSITIVE_INFINITY, onEviction = False\<rparr>"
  have h: "LRUBase_new \<lparr>opt_maxAge = None, opt_maxSize = 3, opt_onEviction = False\<rparr> = Inr ?init"
    by (simp add: LRUBase_new_def)
  have r: "?final = LRUBase_run ?ops ?init"
    by (simp add: lru_defs)
  have "LRUBase_size ?final = 2"
    using size_formula_reachable [OF h r] by (simp add: Map_has_def)
  then show ?thesis
    using h r by simp
qed

text \<open>
  C6 as stated fails: after \<open>set(x, 1, {maxAge: 50})\<close> at time 0 the entry is expired at
  time 100, no non-expired key is left, and \<open>size\<close> still reports 1.
\<close>

theorem size_counts_expired_counterexample:
  "LRUBase_new \<lparr>opt_maxAge = None, opt_maxSize = 3, opt_onEviction = False\<rparr>
     = Inr (\<lparr>size_priv = 0, cache = [], oldCache = [], maxSize = 3, maxAge = POSITIVE_INFINITY,
             onEviction = False\<rparr> :: (string, int) LRUBase)
   \<and> LRUBase_run [(0, OpSet ''x'' (1::int) (Some (Num 50)))]
        \<lparr>size_priv = 0, cache = [], oldCache = [], maxSize = 3, maxAge = POSITIVE_INFINITY,
          onEviction = False\<rparr>
       = \<lparr>size_priv = 1, cache = [(''x'', \<lparr>item_value = 1, expiry = Some 50\<rparr>)],
          oldCache = [], maxSize = 3, maxAge = POSITIVE_INFINITY, onEviction = False\<rparr>
   \<and> is_expired 100 \<lparr>item_value = (1::int), expiry = Some 50\<rparr>
   \<and> LRUBase_size
        (\<lparr>size_priv = 1, cache = [(''x'', \<lparr>item_value = (1::int), expiry = Some 50\<rparr>)],
          oldCache = [], maxSize = 3, maxAge = POSITIVE_INFINITY, onEviction = False\<rparr>) = 1
   \<and> live_keys_count 100
        (\<lparr>size_priv = 1, cache = [(''x'', \<lparr>item_value = (1::int), expiry = Some 50\<rparr>)],
          oldCache = [], maxSize = 3, maxAge = POSITIVE_INFINITY, onEviction = False\<rparr>) = 0"
  by (simp add: lru_defs LRUBase_size_def live_keys_count_def)






text \<open>
  C8. \<open>entriesDescending()\<close> yields the active generation newest-first and then the
  previous generation newest-first without the keys shadowed by the active one;
  \<open>entriesAscending()\<close> yields the non-shadowed previous entries in insertion order and then
  the active entries in insertion order; both leave out the expired entries. In every state
  in which no entry is expired, and in every well-formed state, the first sequence is
  exactly the reverse of the second. When no entry is expired, neither changes the state
  nor notifies.
\<close>

theorem descending_is_reverse_of_ascending:
  assumes "no_expired now s \<or> LRUBase_inv s"
  shows "fst (LRUBase_entriesDescending now s) = rev (fst (LRUBase_entriesAscending now s))
       \<and> fst (LRUBase_entriesDescending now s)
           = map key_value
               (filter (\<lambda>p. \<not> is_expired now (snd p)) (rev (cache s))
                @ filter (\<lambda>p. \<not> Map_has (cache s) (fst p) \<and> \<not> is_expired now (snd p))
                    (rev (oldCache s)))
       \<and> fst (LRUBase_entriesAscending now s)
           = map key_value
               (filter (\<lambda>p. \<not> Map_has (cache s) (fst p) \<and> \<not> is_expired now (snd p)) (oldCache s)
                @ filter (\<lambda>p. \<not> is_expired now (snd p)) (cache s))
       \<and> (no_expired now s \<longrightarrow>
            LRUBase_entriesDescending now s
              = (rev (map key_value (cache s))
                 @ rev (map key_value
                          (filter (\<lambda>p. \<not> Map_has (cache s) (fst p)) (oldCache s))),
                 s, [])
          \<and> LRUBase_entriesAscending now s
              = (map key_value (filter (\<lambda>p. \<not> Map_has (cache s) (fst p)) (oldCache s))
                 @ map key_value (cache s), s, []))"
proof -
  have kv: "(\<lambda>p. (fst p, item_value (snd p))) = (key_value :: 'a \<times> 'b CacheItem \<Rightarrow> 'a \<times> 'b)"
    by (simp add: key_value_def fun_eq_iff)
  have plain: "LRUBase_entriesDescending now s
              = (rev (map key_value (cache s))
                 @ rev (map key_value
                          (filter (\<lambda>p. \<not> Map_has (cache s) (fst p)) (oldCache s))),
                 s, [])
          \<and> LRUBase_entriesAscending now s
              = (map key_value (filter (\<lambda>p. \<not> Map_has (cache s) (fst p)) (oldCache s))
                 @ map key_value (cache s), s, [])"
    if n: "no_expired now s"
  proof -
    have c: "list_all (\<lambda>p. \<not> is_expired now (snd p)) (rev (cache s))"
      and old: "list_all (\<lambda>p. \<not> is_expired now (snd p)) (rev (oldCache s))"
      using n by (simp_all add: no_expired_def list_all_iff)
    have "LRUBase_entriesDescending now s
           = (rev (map key_value (cache s))
              @ rev (map key_value (filter (\<lambda>p. \<not> Map_has (cache s) (fst p)) (oldCache s))),
              s, [])"
      by (simp add: LRUBase_entriesDescending_def descending_cache_fresh [OF c]
            descending_old_fresh [OF old] rev_map rev_filter kv)
    moreover have "LRUBase_entriesAscending now s
           = (map key_value (filter (\<lambda>p. \<not> Map_has (cache s) (fst p)) (oldCache s))
              @ map key_value (cache s), s, [])"
      using n by (simp add: LRUBase_entriesAscending_def entriesAscending_priv_fresh kv)
    ultimately show ?thesis
      by simp
  qed
  have closed: "fst (LRUBase_entriesDescending now s)
           = map key_value
               (filter (\<lambda>p. \<not> is_expired now (snd p)) (rev (cache s))
                @ filter (\<lambda>p. \<not> Map_has (cache s) (fst p) \<and> \<not> is_expired now (snd p))
                    (rev (oldCache s)))
       \<and> fst (LRUBase_entriesAscending now s)
           = map key_value
               (filter (\<lambda>p. \<not> Map_has (cache s) (fst p) \<and> \<not> is_expired now (snd p)) (oldCache s)
                @ filter (\<lambda>p. \<not> is_expired now (snd p)) (cache s))"
    using assms
  proof
    assume n: "no_expired now s"
    have c: "filter (\<lambda>p. \<not> is_expired now (snd p)) (cache s) = cache s"
      using n by (simp add: no_expired_def list_all_iff)
    have old: "filter (\<lambda>p. \<not> Map_has (cache s) (fst p) \<and> \<not> is_expired now (snd p)) (oldCache s)
                 = filter (\<lambda>p. \<not> Map_has (cache s) (fst p)) (oldCache s)"
      using n by (intro filter_cong) (auto simp: no_expired_def list_all_iff)
    show ?thesis
      using plain [OF n] by (simp add: rev_filter [symmetric] rev_map c old)
  next
    assume "LRUBase_inv s"
    then show ?thesis
      by (simp add: entriesAscending_closed entriesDescending_closed)
  qed
  then have "fst (LRUBase_entriesDescending now s) = rev (fst (LRUBase_entriesAscending now s))"
    by (simp add: rev_map rev_filter)
  then show ?thesis
    using closed plain by blast
qed

theorem descending_is_reverse_of_ascending_witness:
  "no_expired 10
     \<lparr>size_priv = 1, cache = [(''c'', \<lparr>item_value = (30::int), expiry = Some 50\<rparr>)],
      oldCache = [(''a'', \<lparr>item_value = 1, expiry = None\<rparr>),
                  (''c'', \<lparr>item_value = 3, expiry = Some 20\<rparr>),
                  (''b'', \<lparr>item_value = 2, expiry = Some 11\<rparr>)],
      maxSize = 3, maxAge = POSITIVE_INFINITY, onEviction = True\<rparr>
   \<and> fst (LRUBase_entriesAscending 10
       \<lparr>size_priv = 1, cache = [(''c'', \<lparr>item_value = (30::int), expiry = Some 50\<rparr>)],
        oldCache = [(''a'', \<lparr>item_value = 1, expiry = None\<rparr>),
                    (''c'', \<lparr>item_value = 3, expiry = Some 20\<rparr>),
                    (''b'', \<lparr>item_value = 2, expiry = Some 11\<rparr>)],
        maxSize = 3, maxAge = POSITIVE_INFINITY, onEviction = True\<rparr>)
       = [(''a'', 1), (''b'', 2), (''c'', 30)]
   \<and> fst (LRUBase_entriesDescending 10
       \<lparr>size_priv = 1, cache = [(''c'', \<lparr>item_value = (30::int), expiry = Some 50\<rparr>)],
        oldCache = [(''a'', \<lparr>item_value = 1, expiry = None\<rparr>),
                    (''c'', \<lparr>item_value = 3, expiry = Some 20\<rparr>),
                    (''b'', \<lparr>item_value = 2, expiry = Some 11\<rparr>)],
        maxSize = 3, maxAge = POSITIVE_INFINITY, onEviction = True\<rparr>)
       = [(''c'', 30), (''b'', 2), (''a'', 1)]"
proof -
  let ?st = "\<lparr>size_priv = 1, cache = [(''c'', \<lparr>item_value = (30::int), expiry = Some 50\<rparr>)],
      oldCache = [(''a'', \<lparr>item_value = 1, expiry = None\<rparr>),
                  (''c'', \<lparr>item_value = 3, expiry = Some 20\<rparr>),
                  (''b'', \<lparr>item_value = 2, expiry = Some 11\<rparr>)],
      maxSize = 3, maxAge = POSITIVE_INFINITY, onEviction = True\<rparr>"
  have h: "no_expired 10 ?st"
    by (simp add: no_expired_def is_expired_def)
  show ?thesis
    using h descending_is_reverse_of_ascending [OF disjI1 [OF h]]
    by (simp add: key_value_def Map_has_def is_expired_def)
qed


text \<open>
  C9. The mirror of the facade is written by \<open>set\<close> and emptied by \<open>clear\<close> only. For every
  sequence of facade operations without \<open>clear\<close> on a fresh facade, \<open>keys()\<close> yields the
  keys passed to \<open>set\<close> in the order of their first insertion, \<open>entries()\<close> pairs each with
  the value of its latest \<open>set\<close>, and their number is the number of distinct keys set,
  whatever the engine has evicted meanwhile and whatever \<open>maxSize\<close> is.
\<close>

theorem mirror_never_pruned:
  assumes "QuickLRU_new options = Inr q0" and "FClear \<notin> snd ` set ops"
    and "q = QuickLRU_run ops q0"
  shows "QuickLRU_keys q = first_occurrences (map fst (set_entries ops))
       \<and> map fst (QuickLRU_entries q) = QuickLRU_keys q
       \<and> map snd (QuickLRU_entries q) = QuickLRU_values q
       \<and> map_of (QuickLRU_entries q) = map_of (rev (set_entries ops))
       \<and> length (QuickLRU_entries q) = card (fst ` set (set_entries ops))"
proof -
  have empty: "map_priv q0 = []"
    using assms(1) by (auto simp: QuickLRU_new_def split: sum.splits)
  have m: "map_priv q = foldl (\<lambda>m p. Map_set m (fst p) (snd p)) [] (set_entries ops)"
    using map_priv_run [OF assms(2), of q0] assms(3) empty by simp
  have k: "QuickLRU_keys q = first_occurrences (map fst (set_entries ops))"
    using keys_foldl_Map_set [of "[]" "set_entries ops"] m by (simp add: QuickLRU_keys_def)
  have v: "map_of (QuickLRU_entries q) = map_of (rev (set_entries ops))"
    using map_of_foldl_Map_set [of "[]" "set_entries ops"] m by (simp add: QuickLRU_entries_def)
  have "length (QuickLRU_keys q) = card (fst ` set (set_entries ops))"
    using k length_first_occurrences [of "map fst (set_entries ops)"] by simp
  then have n: "length (QuickLRU_entries q) = card (fst ` set (set_entries ops))"
    by (simp add: QuickLRU_keys_def QuickLRU_entries_def)
  show ?thesis
    using k v n by (simp add: QuickLRU_keys_def QuickLRU_entries_def QuickLRU_values_def)
qed


text \<open>
  With \<open>maxSize = 1\<close> and a TTL of 10: three distinct keys are set; rotation, \<open>delete\<close> and
  expiry leave the engine empty (size 0), and the facade still iterates over all three.
\<close>

theorem mirror_never_pruned_witness:
  "QuickLRU_new \<lparr>opt_maxAge = Some (Num 10), opt_maxSize = 1, opt_onEviction = True\<rparr>
     = Inr (\<lparr>base = \<lparr>size_priv = 0, cache = [], oldCache = [], maxSize = 1, maxAge = Num 10,
                      onEviction = True\<rparr>, map_priv = []\<rparr> :: (string, int) QuickLRU)
   \<and> \<lparr>base = \<lparr>size_priv = 0, cache = [], oldCache = [], maxSize = 1, maxAge = Num 10,
                onEviction = True\<rparr>,
        map_priv = [(''a'', 3), (''b'', 2), (''c'', 4)]\<rparr>
     = QuickLRU_run
        [(0, FSet ''a'' (1::int)), (1, FSet ''b'' 2), (2, FSet ''a'' 3), (3, FDelete ''b''),
         (4, FSet ''c'' 4), (5, FGet ''a''), (6, FResize 1), (100, FHas ''c'')]
        \<lparr>base = \<lparr>size_priv = 0, cache = [], oldCache = [], maxSize = 1, maxAge = Num 10,
                  onEviction = True\<rparr>, map_priv = []\<rparr>
   \<and> QuickLRU_keys
        \<lparr>base = \<lparr>size_priv = 0, cache = [], oldCache = [], maxSize = 1, maxAge = Num 10,
                  onEviction = True\<rparr>,
          map_priv = [(''a'', 3::int), (''b'', 2), (''c'', 4)]\<rparr>
     = [''a'', ''b'', ''c'']
   \<and> QuickLRU_size
        \<lparr>base = \<lparr>size_priv = 0, cache = [], oldCache = [], maxSize = 1, maxAge = Num 10,
                  onEviction = True\<rparr>,
          map_priv = [(''a'', 3::int), (''b'', 2), (''c'', 4)]\<rparr>
     = 0"
proof -
  let ?init = "\<lparr>base = \<lparr>size_priv = 0, cache = [], oldCache = [], maxSize = 1, maxAge = Num 10,
                      onEviction = True\<rparr>, map_priv = []\<rparr> :: (string, int) QuickLRU"
  let ?ops = "[(0, FSet ''a'' (1::int)), (1, FSet ''b'' 2), (2, FSet ''a'' 3), (3, FDelete ''b''),
         (4, FSet ''c'' 4), (5, FGet ''a''), (6, FResize 1), (100, FHas ''c'')]"
  let ?final = "\<lparr>base = \<lparr>size_priv = 0, cache = [], oldCache = [], maxSize = 1, maxAge = Num 10,
                  onEviction = True\<rparr>,
          map_priv = [(''a'', 3::int), (''b'', 2), (''c'', 4)]\<rparr>"
  have h1: "QuickLRU_new \<lparr>opt_maxAge = Some (Num 10), opt_maxSize = 1, opt_onEviction = True\<rparr>
              = Inr ?init"
    by (simp add: QuickLRU_new_def LRUBase_new_def)
  have h2: "FClear \<notin> snd ` set ?ops"
    by simp
  have h3: "?final = QuickLRU_run ?ops ?init"
    by code_simp
  have e: "first_occurrences (map fst (set_entries ?ops)) = [''a'', ''b'', ''c'']"
    by simp
  have k: "QuickLRU_keys ?final = [''a'', ''b'', ''c'']"
    using mirror_never_pruned [OF h1 h2 h3] by (simp only: e)
  have n: "QuickLRU_size ?final = 0"
    by (simp add: QuickLRU_size_def LRUBase_size_def)
  show ?thesis
    by (intro conjI) (rule h1, rule h3, rule k, rule n)
qed

text \<open>
  C3. The facade's \<open>delete\<close> forwards to the engine and leaves the mirror alone, unlike
  \<open>set\<close> and \<open>clear\<close>: after \<open>set(a, 1)\<close> and \<open>delete(a)\<close> (which returns true) on a fresh
  facade, \<open>has(a)\<close> is false and \<open>keys()\<close> and \<open>entries()\<close> still yield \<open>a\<close>.
\<close>

theorem facade_delete_keeps_mirror_entry:
  "QuickLRU_keys (snd (QuickLRU_delete ''a'' (fst (QuickLRU_set 0 ''a'' (1::int)
      \<lparr>base = \<lparr>size_priv = 0, cache = [], oldCache = [], maxSize = 2,
                maxAge = POSITIVE_INFINITY, onEviction = False\<rparr>, map_priv = []\<rparr>))))
     = [''a'']
   \<and> QuickLRU_entries (snd (QuickLRU_delete ''a'' (fst (QuickLRU_set 0 ''a'' (1::int)
      \<lparr>base = \<lparr>size_priv = 0, cache = [], oldCache = [], maxSize = 2,
                maxAge = POSITIVE_INFINITY, onEviction = False\<rparr>, map_priv = []\<rparr>))))
     = [(''a'', 1)]
   \<and> fst (QuickLRU_delete ''a'' (fst (QuickLRU_set 0 ''a'' (1::int)
      \<lparr>base = \<lparr>size_priv = 0, cache = [], oldCache = [], maxSize = 2,
                maxAge = POSITIVE_INFINITY, onEviction = False\<rparr>, map_priv = []\<rparr>)))
     = True
   \<and> fst (QuickLRU_has 1 ''a'' (snd (QuickLRU_delete ''a'' (fst (QuickLRU_set 0 ''a'' (1::int)
      \<lparr>base = \<lparr>size_priv = 0, cache = [], oldCache = [], maxSize = 2,
                maxAge = POSITIVE_INFINITY, onEviction = False\<rparr>, map_priv = []\<rparr>)))))
     = False"
  by code_simp


text \<open>
  C5 (amended). \<open>onEviction\<close> is invoked before the state change it reports. A
  notification of lazy expiry in \<open>has\<close>, \<open>peek\<close> and \<open>get\<close> is made in the state the
  operation found, the expired entry still in its generation; one made while
  \<open>entriesAscending\<close> or \<open>entriesDescending\<close> walks a well-formed state is made with the
  expired key still in a generation. A notification of
  rotation (in \<open>set\<close>, and in \<open>get\<close> when it promotes) is made after the new entry is in the
  active generation and the active-count is reset to 0, and before the previous generation
  is retired: the evicted key is still in it. The overflow notifications of \<open>resize\<close> are
  made in the state the collecting walk left, before the generations and \<open>maxSize\<close> are
  replaced.
\<close>

theorem notification_precedes_state_change:
  "(\<forall>c \<in> set (snd (snd (LRUBase_has now key s))).
      snd (snd c) = s \<and> fst c = key \<and> (Map_has (cache s) key \<or> Map_has (oldCache s) key))
 \<and> (\<forall>c \<in> set (snd (snd (LRUBase_peek now key s))).
      snd (snd c) = s \<and> fst c = key \<and> (Map_has (cache s) key \<or> Map_has (oldCache s) key))
 \<and> (\<forall>c \<in> set (snd (snd (LRUBase_get now key s))).
      (snd (snd c) = s \<and> fst c = key \<and> (Map_has (cache s) key \<or> Map_has (oldCache s) key))
      \<or> (size_priv (snd (snd c)) = 0
         \<and> oldCache (snd (snd c)) = Map_delete (oldCache s) key
         \<and> Map_has (oldCache (snd (snd c))) (fst c) \<and> Map_has (cache (snd (snd c))) key))
 \<and> (\<forall>c \<in> set (snd (LRUBase_set now key v a s)).
      size_priv (snd (snd c)) = 0 \<and> oldCache (snd (snd c)) = oldCache s
      \<and> Map_has (oldCache s) (fst c) \<and> Map_has (cache (snd (snd c))) key)
 \<and> (LRUBase_inv s \<longrightarrow>
      (\<forall>c \<in> set (snd (snd (LRUBase_entriesAscending now s))).
         Map_has (cache (snd (snd c))) (fst c) \<or> Map_has (oldCache (snd (snd c))) (fst c)))
 \<and> (LRUBase_inv s \<longrightarrow>
      (\<forall>c \<in> set (snd (snd (LRUBase_entriesDescending now s))).
         Map_has (cache (snd (snd c))) (fst c) \<or> Map_has (oldCache (snd (snd c))) (fst c)))
 \<and> (\<forall>s' cs. LRUBase_resize now n s = Inr (s', cs) \<longrightarrow>
      (\<exists>c2. cs = snd (snd (LRUBase_entriesAscending_priv now s)) @ c2
            \<and> (\<forall>c \<in> set c2. snd (snd c) = fst (snd (LRUBase_entriesAscending_priv now s)))))"
proof -
  have has: "\<forall>c \<in> set (snd (snd (LRUBase_has now key s))).
      snd (snd c) = s \<and> fst c = key \<and> (Map_has (cache s) key \<or> Map_has (oldCache s) key)"
    using snapshot_has [of _ now key s] by blast
  have peek: "\<forall>c \<in> set (snd (snd (LRUBase_peek now key s))).
      snd (snd c) = s \<and> fst c = key \<and> (Map_has (cache s) key \<or> Map_has (oldCache s) key)"
    using snapshot_peek [of _ now key s] by blast
  have get: "\<forall>c \<in> set (snd (snd (LRUBase_get now key s))).
      (snd (snd c) = s \<and> fst c = key \<and> (Map_has (cache s) key \<or> Map_has (oldCache s) key))
      \<or> (size_priv (snd (snd c)) = 0
         \<and> oldCache (snd (snd c)) = Map_delete (oldCache s) key
         \<and> Map_has (oldCache (snd (snd c))) (fst c) \<and> Map_has (cache (snd (snd c))) key)"
    using snapshot_get [of _ now key s] by blast
  have set: "\<forall>c \<in> set (snd (LRUBase_set now key v a s)).
      size_priv (snd (snd c)) = 0 \<and> oldCache (snd (snd c)) = oldCache s
      \<and> Map_has (oldCache s) (fst c) \<and> Map_has (cache (snd (snd c))) key"
    using snapshot_set [of _ now key v a s] by blast
  have walk: "LRUBase_inv s \<longrightarrow>
      (\<forall>c \<in> set (snd (snd (LRUBase_entriesAscending now s))).
         Map_has (cache (snd (snd c))) (fst c) \<or> Map_has (oldCache (snd (snd c))) (fst c))"
    using present_entriesAscending_priv [of s _ now]
    by (simp add: LRUBase_entriesAscending_def case_prod_beta)
  have walk_desc: "LRUBase_inv s \<longrightarrow>
      (\<forall>c \<in> set (snd (snd (LRUBase_entriesDescending now s))).
         Map_has (cache (snd (snd c))) (fst c) \<or> Map_has (oldCache (snd (snd c))) (fst c))"
    using present_entriesDescending [of s _ now] by blast
  have resize: "\<forall>s' cs. LRUBase_resize now n s = Inr (s', cs) \<longrightarrow>
      (\<exists>c2. cs = snd (snd (LRUBase_entriesAscending_priv now s)) @ c2
            \<and> (\<forall>c \<in> set c2. snd (snd c) = fst (snd (LRUBase_entriesAscending_priv now s))))"
    using calls_resize [of now n s] by blast
  show ?thesis
    using has peek get set walk walk_desc resize by (intro conjI)
qed

theorem notification_precedes_state_change_witness:
  "snd (snd (LRUBase_has 10 ''a''
      \<lparr>size_priv = 1, cache = [(''a'', \<lparr>item_value = (1::int), expiry = Some 5\<rparr>)],
       oldCache = [], maxSize = 2, maxAge = POSITIVE_INFINITY, onEviction = True\<rparr>))
     = [(''a'', 1,
         \<lparr>size_priv = 1, cache = [(''a'', \<lparr>item_value = 1, expiry = Some 5\<rparr>)],
          oldCache = [], maxSize = 2, maxAge = POSITIVE_INFINITY, onEviction = True\<rparr>)]
   \<and> Map_has (cache (snd (snd (''a'', 1::int,
         \<lparr>size_priv = 1, cache = [(''a'', \<lparr>item_value = (1::int), expiry = Some 5\<rparr>)],
          oldCache = [], maxSize = 2, maxAge = POSITIVE_INFINITY, onEviction = True\<rparr>))))
        ''a''"
proof -
  let ?st = "\<lparr>size_priv = 1, cache = [(''a'', \<lparr>item_value = (1::int), expiry = Some 5\<rparr>)],
       oldCache = [], maxSize = 2, maxAge = POSITIVE_INFINITY, onEviction = True\<rparr>"
  have h: "snd (snd (LRUBase_has 10 ''a'' ?st)) = [(''a'', 1, ?st)]"
    by (simp add: lru_defs)
  have "\<forall>c \<in> set (snd (snd (LRUBase_has 10 ''a'' ?st))).
          snd (snd c) = ?st \<and> fst c = ''a''
          \<and> (Map_has (cache ?st) ''a'' \<or> Map_has (oldCache ?st) ''a'')"
    using notification_precedes_state_change
      [where now = 10 and key = "''a''" and s = ?st and v = 0 and a = None and n = 1]
    by blast
  then have "Map_has (cache ?st) ''a'' \<or> Map_has (oldCache ?st) ''a''"
    by (simp add: h)
  then have "Map_has (cache ?st) ''a''"
    by (simp add: Map_has_def)
  then show ?thesis
    using h by simp
qed

text \<open>
  C5 as stated fails. In the state after \<open>set(a, 1, {maxAge: 5})\<close> at time 0, \<open>get(a)\<close> at
  time 10 notifies \<open>(a, 1)\<close> in a state that still holds \<open>a\<close>; the entry is deleted
  afterwards. In the state before \<open>set(c, 3)\<close> of the scenario of C7, the rotation notifies
  \<open>(b, 2)\<close> in a state whose previous generation is still \<open>{b}\<close> and whose active
  generation is still \<open>{a, c}\<close>, with the active-count already 0.
\<close>

theorem notification_order_counterexample:
  "LRUBase_get 10 ''a''
      \<lparr>size_priv = 1, cache = [(''a'', \<lparr>item_value = (1::int), expiry = Some 5\<rparr>)],
       oldCache = [], maxSize = 2, maxAge = POSITIVE_INFINITY, onEviction = True\<rparr>
     = (None,
        \<lparr>size_priv = 0, cache = [], oldCache = [], maxSize = 2, maxAge = POSITIVE_INFINITY,
         onEviction = True\<rparr>,
        [(''a'', 1,
          \<lparr>size_priv = 1, cache = [(''a'', \<lparr>item_value = 1, expiry = Some 5\<rparr>)],
           oldCache = [], maxSize = 2, maxAge = POSITIVE_INFINITY, onEviction = True\<rparr>)])
   \<and> LRUBase_set 0 ''c'' (3::int) None
      \<lparr>size_priv = 1, cache = [(''a'', \<lparr>item_value = 1, expiry = None\<rparr>)],
       oldCache = [(''b'', \<lparr>item_value = 2, expiry = None\<rparr>)],
       maxSize = 2, maxAge = POSITIVE_INFINITY, onEviction = True\<rparr>
     = (\<lparr>size_priv = 0, cache = [],
         oldCache = [(''a'', \<lparr>item_value = 1, expiry = None\<rparr>),
                     (''c'', \<lparr>item_value = 3, expiry = None\<rparr>)],
         maxSize = 2, maxAge = POSITIVE_INFINITY, onEviction = True\<rparr>,
        [(''b'', 2,
          \<lparr>size_priv = 0,
           cache = [(''a'', \<lparr>item_value = 1, expiry = None\<rparr>),
                    (''c'', \<lparr>item_value = 3, expiry = None\<rparr>)],
           oldCache = [(''b'', \<lparr>item_value = 2, expiry = None\<rparr>)],
           maxSize = 2, maxAge = POSITIVE_INFINITY, onEviction = True\<rparr>)])"
  by (simp add: lru_defs)


text \<open>
  C2. Read-your-write. Take any sequence of operations on a cache the constructor accepted,
  then \<open>set(key, v)\<close> at clock reading \<open>t0\<close>, then any sequence of operations that does not
  set \<open>key\<close> again. The \<open>set\<close> stores the entry of \<open>key\<close> with value \<open>v\<close>. If none of the
  later operations removes \<open>key\<close> (by \<open>delete\<close>, \<open>clear\<close>, rotation-eviction,
  resize-eviction or TTL expiry), the entry is still the one stored, and \<open>get(key)\<close> at a
  reading \<open>t\<close> at which its expiry time has not passed returns exactly \<open>v\<close>. Whatever the
  later operations are, the entry is the one stored or is gone, \<open>get(key)\<close> never returns
  another value than \<open>v\<close>, and it returns \<open>v\<close> whenever \<open>key\<close> is still in a generation and
  not expired at \<open>t\<close>.
\<close>

theorem read_your_write:
  assumes "LRUBase_new options = Inr s0"
    and "s1 = LRUBase_run before s0"
    and "s2 = fst (LRUBase_set t0 key v a s1)"
    and "list_all (\<lambda>x. \<not> sets_key key (snd x)) after"
    and "s3 = LRUBase_run after s2"
  shows "LRUBase_lookup s2 key = Some \<lparr>item_value = v, expiry = set_expiry t0 a s1\<rparr>
       \<and> (not_removed after s2 key \<longrightarrow>
            LRUBase_lookup s3 key = Some \<lparr>item_value = v, expiry = set_expiry t0 a s1\<rparr>)
       \<and> (not_removed after s2 key
            \<and> \<not> is_expired t \<lparr>item_value = v, expiry = set_expiry t0 a s1\<rparr>
          \<longrightarrow> fst (LRUBase_get t key s3) = Some v)
       \<and> (LRUBase_lookup s3 key = None
          \<or> LRUBase_lookup s3 key = Some \<lparr>item_value = v, expiry = set_expiry t0 a s1\<rparr>)
       \<and> (fst (LRUBase_get t key s3) = None \<or> fst (LRUBase_get t key s3) = Some v)
       \<and> ((Map_has (cache s3) key \<or> Map_has (oldCache s3) key)
            \<and> \<not> is_expired t \<lparr>item_value = v, expiry = set_expiry t0 a s1\<rparr>
          \<longrightarrow> fst (LRUBase_get t key s3) = Some v)"
proof -
  let ?item = "\<lparr>item_value = v, expiry = set_expiry t0 a s1\<rparr>"
  have "LRUBase_inv s1"
    using assms(1,2) by (simp add: inv_new inv_run)
  then have i2: "LRUBase_inv s2"
    using assms(3) by (simp add: inv_set)
  have stored: "LRUBase_lookup s2 key = Some ?item"
    using assms(3) by (simp add: lookup_set_same)
  have kept: "LRUBase_lookup s3 key = Some ?item" if "not_removed after s2 key"
    using lookup_run_kept [OF i2 assms(4) that] stored assms(5) by simp
  have read: "fst (LRUBase_get t key s3) = Some v"
    if "not_removed after s2 key" and "\<not> is_expired t ?item"
    using get_fresh [OF kept [OF that(1)] that(2)] by simp
  have l: "LRUBase_lookup s3 key = None \<or> LRUBase_lookup s3 key = Some ?item"
    using lookup_run [OF i2 assms(4)] stored assms(5) by simp
  have g: "fst (LRUBase_get t key s3) = None \<or> fst (LRUBase_get t key s3) = Some v"
    using l get_absent [of s3 key t] get_value [of s3 key ?item t] by auto
  have present: "fst (LRUBase_get t key s3) = Some v"
    if "Map_has (cache s3) key \<or> Map_has (oldCache s3) key" and "\<not> is_expired t ?item"
  proof -
    have "LRUBase_lookup s3 key = Some ?item"
      using l that(1) lookup_present [of s3 key] by auto
    then show ?thesis
      using get_fresh [of s3 key ?item t] that(2) by simp
  qed
  show ?thesis
    using stored kept read l g present by blast
qed

theorem read_your_write_witness:
  "not_removed [(2, OpGet ''b''), (3, OpSet ''c'' 3 None)]
     (fst (LRUBase_set 1 ''b'' (2::int) None
        (LRUBase_run [(0, OpSet ''a'' 1 None)]
           \<lparr>size_priv = 0, cache = [], oldCache = [], maxSize = 2,
            maxAge = POSITIVE_INFINITY, onEviction = False\<rparr>))) ''b''
   \<and> fst (LRUBase_get 4 ''b''
     (LRUBase_run [(2, OpGet ''b''), (3, OpSet ''c'' 3 None)]
        (fst (LRUBase_set 1 ''b'' (2::int) None
           (LRUBase_run [(0, OpSet ''a'' 1 None)]
              \<lparr>size_priv = 0, cache = [], oldCache = [], maxSize = 2,
               maxAge = POSITIVE_INFINITY, onEviction = False\<rparr>)))))
     = Some 2"
proof -
  let ?init = "\<lparr>size_priv = 0, cache = [], oldCache = [], maxSize = 2,
               maxAge = POSITIVE_INFINITY, onEviction = False\<rparr> :: (string, int) LRUBase"
  let ?before = "[(0, OpSet ''a'' (1::int) None)]"
  let ?after = "[(2, OpGet ''b''), (3, OpSet ''c'' (3::int) None)]"
  let ?stored = "fst (LRUBase_set 1 ''b'' 2 None (LRUBase_run ?before ?init))"
  have h1: "LRUBase_new \<lparr>opt_maxAge = None, opt_maxSize = 2, opt_onEviction = False\<rparr>
              = Inr ?init"
    by (simp add: LRUBase_new_def)
  have h4: "list_all (\<lambda>x. \<not> sets_key ''b'' (snd x)) ?after"
    by (simp add: sets_key_def)
  have kept: "not_removed ?after ?stored ''b''"
    by code_simp
  have fresh: "\<not> is_expired 4 \<lparr>item_value = (2::int),
                  expiry = set_expiry 1 None (LRUBase_run ?before ?init)\<rparr>"
    by code_simp
  have "fst (LRUBase_get 4 ''b'' (LRUBase_run ?after ?stored)) = Some 2"
    using read_your_write [OF h1 refl refl h4 refl, where ?t0.0 = 1 and v = 2 and a = None
        and before = ?before and t = 4] kept fresh
    by blast
  then show ?thesis
    using kept by (rule conjI [rotated])
qed




text \<open>
  C10. Expiry is inclusive at the boundary. In every state reached under the documented
  contract, for a key whose entry has the finite expiry time \<open>e\<close>: at any clock reading
  \<open>t\<close> with \<open>e \<le> t\<close>, \<open>get\<close>, \<open>has\<close> and \<open>peek\<close> report the key absent, delete the entry
  from both generations and notify \<open>(key, value)\<close> once (when a callback is configured);
  at any \<open>t < e\<close> they return the stored value (\<open>has\<close>: true). An entry \<open>set\<close> stores at
  reading \<open>t0\<close> with the finite \<open>maxAge\<close> \<open>d\<close> (its own or the default) has expiry
  \<open>t0 + d\<close>.
\<close>

theorem expiry_is_inclusive:
  assumes "LRUBase_new options = Inr s0" and "valid_maxAge (opt_maxAge options)"
    and "list_all valid_operation ops" and "s = LRUBase_run ops s0"
    and "LRUBase_lookup s key = Some item" and "expiry item = Some e"
  shows "(e \<le> t \<longrightarrow>
            LRUBase_get t key s
              = (None, snd (LRUBase_delete key s),
                 if onEviction s then [(key, item_value item, s)] else [])
          \<and> LRUBase_has t key s
              = (False, snd (LRUBase_delete key s),
                 if onEviction s then [(key, item_value item, s)] else [])
          \<and> LRUBase_peek t key s
              = (None, snd (LRUBase_delete key s),
                 if onEviction s then [(key, item_value item, s)] else [])
          \<and> LRUBase_lookup (snd (LRUBase_delete key s)) key = None)
       \<and> (t < e \<longrightarrow>
            fst (LRUBase_get t key s) = Some (item_value item)
          \<and> LRUBase_has t key s = (True, s, [])
          \<and> LRUBase_peek t key s = (Some (item_value item), s, []))
       \<and> LRUBase_lookup (fst (LRUBase_set t0 k v a s)) k
           = Some \<lparr>item_value = v, expiry = set_expiry t0 a s\<rparr>
       \<and> set_expiry t0 (Some (Num d)) s = Some (t0 + d)
       \<and> (maxAge s = Num d \<longrightarrow> set_expiry t0 None s = Some (t0 + d))"
proof -
  have "LRUBase_inv s0" and "positive_expiries s0"
    using assms(1,2) by (simp_all add: inv_new positive_new)
  then have "positive_expiries s"
    using assms(3,4) by (simp add: positive_run)
  then have "0 < e"
    using assms(5,6) by (auto simp: positive_expiries_def)
  then have nz: "e \<noteq> 0"
    by simp
  have expired: "LRUBase_get t key s
              = (None, snd (LRUBase_delete key s),
                 if onEviction s then [(key, item_value item, s)] else [])
          \<and> LRUBase_has t key s
              = (False, snd (LRUBase_delete key s),
                 if onEviction s then [(key, item_value item, s)] else [])
          \<and> LRUBase_peek t key s
              = (None, snd (LRUBase_delete key s),
                 if onEviction s then [(key, item_value item, s)] else [])
          \<and> LRUBase_lookup (snd (LRUBase_delete key s)) key = None"
    if "e \<le> t"
    using expired_read [OF assms(5,6) nz that] by (simp add: lookup_delete)
  have fresh: "fst (LRUBase_get t key s) = Some (item_value item)
          \<and> LRUBase_has t key s = (True, s, [])
          \<and> LRUBase_peek t key s = (Some (item_value item), s, [])"
    if "t < e"
    using fresh_read [OF assms(5,6) that] by simp
  have stored: "LRUBase_lookup (fst (LRUBase_set t0 k v a s)) k
           = Some \<lparr>item_value = v, expiry = set_expiry t0 a s\<rparr>"
    by (rule lookup_set_same)
  have finite: "set_expiry t0 (Some (Num d)) s = Some (t0 + d)"
    and default: "maxAge s = Num d \<longrightarrow> set_expiry t0 None s = Some (t0 + d)"
    by (simp_all add: set_expiry_def)
  show ?thesis
    using expired fresh stored finite default by blast
qed

theorem expiry_is_inclusive_witness:
  "LRUBase_get 150 ''x''
      \<lparr>size_priv = 1, cache = [(''x'', \<lparr>item_value = (1::int), expiry = Some 150\<rparr>)],
       oldCache = [], maxSize = 2, maxAge = POSITIVE_INFINITY, onEviction = True\<rparr>
     = (None, snd (LRUBase_delete ''x''
          \<lparr>size_priv = 1, cache = [(''x'', \<lparr>item_value = (1::int), expiry = Some 150\<rparr>)],
           oldCache = [], maxSize = 2, maxAge = POSITIVE_INFINITY, onEviction = True\<rparr>),
        [(''x'', 1,
          \<lparr>size_priv = 1, cache = [(''x'', \<lparr>item_value = (1::int), expiry = Some 150\<rparr>)],
           oldCache = [], maxSize = 2, maxAge = POSITIVE_INFINITY, onEviction = True\<rparr>)])
   \<and> fst (LRUBase_get 149 ''x''
      \<lparr>size_priv = 1, cache = [(''x'', \<lparr>item_value = (1::int), expiry = Some 150\<rparr>)],
       oldCache = [], maxSize = 2, maxAge = POSITIVE_INFINITY, onEviction = True\<rparr>)
     = Some 1"
proof -
  let ?init = "\<lparr>size_priv = 0, cache = [], oldCache = [], maxSize = 2,
               maxAge = POSITIVE_INFINITY, onEviction = True\<rparr> :: (string, int) LRUBase"
  let ?ops = "[(100, OpSet ''x'' (1::int) (Some (Num 50)))]"
  let ?item = "\<lparr>item_value = (1::int), expiry = Some 150\<rparr>"
  let ?st = "\<lparr>size_priv = 1, cache = [(''x'', ?item)],
       oldCache = [], maxSize = 2, maxAge = POSITIVE_INFINITY, onEviction = True\<rparr>"
  have h1: "LRUBase_new \<lparr>opt_maxAge = None, opt_maxSize = 2, opt_onEviction = True\<rparr>
              = Inr ?init"
    by (simp add: LRUBase_new_def)
  have h2: "valid_maxAge (opt_maxAge \<lparr>opt_maxAge = None, opt_maxSize = 2, opt_onEviction = True\<rparr>)"
    by (simp add: valid_maxAge_def)
  have h3: "list_all valid_operation ?ops"
    by (simp add: valid_operation_def valid_maxAge_def)
  have h4: "?st = LRUBase_run ?ops ?init"
    by code_simp
  have h5: "LRUBase_lookup ?st ''x'' = Some ?item"
    by (simp add: LRUBase_lookup_def Map_get_def)
  have h6: "expiry ?item = Some 150"
    by simp
  have at: "LRUBase_get 150 ''x'' ?st
              = (None, snd (LRUBase_delete ''x'' ?st), [(''x'', 1, ?st)])"
    using expiry_is_inclusive [OF h1 h2 h3 h4 h5 h6, where t = 150 and ?t0.0 = 0 and k = "''x''"
        and v = 0 and a = None and d = 0]
    by simp
  have before: "fst (LRUBase_get 149 ''x'' ?st) = Some 1"
    using expiry_is_inclusive [OF h1 h2 h3 h4 h5 h6, where t = 149 and ?t0.0 = 0 and k = "''x''"
        and v = 0 and a = None and d = 0]
    by simp
  show ?thesis
    using at before by (rule conjI)
qed


end
